theory Spec2Isabelle
  imports Complex_Main "HOL-Library.Product_Lexorder" "HOL-Library.Multiset"
begin

section \<open>Card model\<close>

text \<open>
  The engine of \<^verbatim>\<open>src/src/PokerStudApp.jsx\<close> handles cards as two-character strings,
  a rank character followed by a suit character, produced by \<^verbatim>\<open>makeDeck\<close> or
  \<^verbatim>\<open>parseCard\<close> only.  A card is modelled as the pair of its rank and its suit; the
  constructors are listed in the order of the arrays \<^verbatim>\<open>RANKS\<close> and \<^verbatim>\<open>SUITS\<close>.
  An empty input slot (the string \<^verbatim>\<open>""\<close>, falsy in JavaScript) and a read past the end
  of an array (\<^verbatim>\<open>undefined\<close>) are both \<open>None\<close> of \<open>card option\<close>.
\<close>

datatype rank = R2 | R3 | R4 | R5 | R6 | R7 | R8 | R9 | RT | RJ | RQ | RK | RA

datatype suit = Ss | Sh | Sd | Sc

type_synonym card = "rank \<times> suit"

definition RANKS :: "rank list" where
  "RANKS = [R2, R3, R4, R5, R6, R7, R8, R9, RT, RJ, RQ, RK, RA]"

definition SUITS :: "suit list" where
  "SUITS = [Ss, Sh, Sd, Sc]"

text \<open>\<^verbatim>\<open>RANK_TO_VAL = Object.fromEntries(RANKS.map((r,i)=>[r,i]))\<close>: the position in \<^verbatim>\<open>RANKS\<close>.\<close>

fun index_of :: "'a \<Rightarrow> 'a list \<Rightarrow> int" where
  "index_of x [] = 0"
| "index_of x (y # ys) = (if x = y then 0 else 1 + index_of x ys)"

definition RANK_TO_VAL :: "rank \<Rightarrow> int" where
  "RANK_TO_VAL r = index_of r RANKS"

text \<open>\<^verbatim>\<open>for (const r of RANKS) for (const s of SUITS) deck.push(r + s)\<close>\<close>

definition makeDeck :: "card list" where
  "makeDeck = concat (map (\<lambda>r. map (\<lambda>s. (r, s)) SUITS) RANKS)"

text \<open>\<^verbatim>\<open>cardToObj(cs) = { r: cs[0], s: cs[1], rv: RANK_TO_VAL[cs[0]] }\<close>\<close>

record cardobj =
  obj_r :: rank
  obj_s :: suit
  obj_rv :: int

definition cardToObj :: "card \<Rightarrow> cardobj" where
  "cardToObj cs = \<lparr> obj_r = fst cs, obj_s = snd cs, obj_rv = RANK_TO_VAL (fst cs) \<rparr>"

text \<open>\<^verbatim>\<open>cards.filter(Boolean)\<close> on an array of card slots keeps the non-empty ones.\<close>

definition filterBoolean :: "card option list \<Rightarrow> card list" where
  "filterBoolean cs = map the (filter (\<lambda>c. c \<noteq> None) cs)"

definition removeCards :: "card list \<Rightarrow> card option list \<Rightarrow> card list" where
  "removeCards deck cards = filter (\<lambda>c. c \<notin> set (filterBoolean cards)) deck"

section \<open>JavaScript containers\<close>

text \<open>The only failure the engine can raise is the \<^verbatim>\<open>TypeError\<close> of reading a property
  of \<^verbatim>\<open>undefined\<close>.\<close>

datatype error = TypeError

text \<open>A \<^verbatim>\<open>Set\<close> built from an array, spread back into an array: the distinct elements
  in the order of their first occurrence.\<close>

definition js_set :: "'a list \<Rightarrow> 'a list" where
  "js_set xs = foldl (\<lambda>seen x. if x \<in> set seen then seen else seen @ [x]) [] xs"

text \<open>\<^verbatim>\<open>countByRank.set(rv, (countByRank.get(rv)||0)+1)\<close> on a \<^verbatim>\<open>Map\<close>, whose entries
  keep the order in which keys were first inserted.\<close>

definition bump :: "(int \<times> int) list \<Rightarrow> int \<Rightarrow> (int \<times> int) list" where
  "bump m v = (if v \<in> fst ` set m
               then map (\<lambda>(k, c). if k = v then (k, c + 1) else (k, c)) m
               else m @ [(v, 1)])"

text \<open>\<^verbatim>\<open>arr.slice(start, end)\<close> with the standard's treatment of negative and
  out-of-range bounds.\<close>

definition js_slice :: "'a list \<Rightarrow> int \<Rightarrow> int \<Rightarrow> 'a list" where
  "js_slice xs start fin =
     (let len = int (length xs);
          k = (if start < 0 then max (len + start) 0 else min start len);
          e = (if fin < 0 then max (len + fin) 0 else min fin len)
      in take (nat (e - k)) (drop (nat k) xs))"

text \<open>\<^verbatim>\<open>arr[i]\<close>: \<^verbatim>\<open>undefined\<close> outside the array.\<close>

definition js_nth :: "'a list \<Rightarrow> nat \<Rightarrow> 'a option" where
  "js_nth xs i = (if i < length xs then Some (xs ! i) else None)"

section \<open>The 5-card ranker\<close>

type_synonym handrank = "int list"

text \<open>The window loop of \<^verbatim>\<open>rank5\<close>:
  \<^verbatim>\<open>for (let i=0;i<=sortedUniq.length-5;i++) { const w = sortedUniq.slice(i,i+5);
       if (w[0]-w[4]===4) { straightHigh = w[0]; break; } }\<close>
  started from \<^verbatim>\<open>straightHigh = -1\<close>.  The guard makes every window five long.\<close>

function straightLoop :: "int list \<Rightarrow> nat \<Rightarrow> int" where
  "straightLoop sortedUniq i =
     (if int i \<le> int (length sortedUniq) - 5
      then (let w = js_slice sortedUniq (int i) (int i + 5)
            in if w ! 0 - w ! 4 = 4 then w ! 0 else straightLoop sortedUniq (i + 1))
      else - 1)"
  by pat_completeness auto
termination
  by (relation "measure (\<lambda>(su, i). length su - i)") auto

declare straightLoop.simps [simp del]

text \<open>The intermediate values of \<^verbatim>\<open>rank5\<close>, each named as in the source.  The comparator
  \<^verbatim>\<open>(a,b)=>b.rv-a.rv\<close> sorts by descending rank value, and
  \<^verbatim>\<open>(a,b)=> b[1]-a[1] || b[0]-a[0]\<close> by descending count, then descending rank value;
  \<^verbatim>\<open>Array.prototype.sort\<close> is stable, as \<open>sort_key\<close> is.\<close>

definition ranks_of :: "card list \<Rightarrow> int list" where
  "ranks_of cards = map obj_rv (sort_key (\<lambda>x. - obj_rv x) (map cardToObj cards))"

definition suits_of :: "card list \<Rightarrow> suit list" where
  "suits_of cards = map obj_s (sort_key (\<lambda>x. - obj_rv x) (map cardToObj cards))"

definition countByRank :: "int list \<Rightarrow> (int \<times> int) list" where
  "countByRank ranks = foldl bump [] ranks"

definition counts_of :: "int list \<Rightarrow> (int \<times> int) list" where
  "counts_of ranks = sort_key (\<lambda>(v, c). (- c, - v)) (countByRank ranks)"

definition isFlush :: "suit list \<Rightarrow> bool" where
  "isFlush suits = (length (js_set suits) = 1)"

definition straightHigh :: "int list \<Rightarrow> int" where
  "straightHigh ranks =
     (let uniqRanks = js_set ranks;
          sortedUniq = sort_key (\<lambda>v. - v) uniqRanks;
          sh = straightLoop sortedUniq 0
      in if sh = - 1 \<and> RANK_TO_VAL RA \<in> set uniqRanks
            \<and> 0 \<in> set uniqRanks \<and> 1 \<in> set uniqRanks
            \<and> 2 \<in> set uniqRanks \<and> 3 \<in> set uniqRanks
         then 3 else sh)"

definition kickers_of :: "(int \<times> int) list \<Rightarrow> int list" where
  "kickers_of counts = sort_key (\<lambda>v. - v) (map fst (filter (\<lambda>x. snd x = 1) counts))"

text \<open>\<^verbatim>\<open>counts[0][1]\<close> and \<^verbatim>\<open>counts[1][0]\<close> throw when the entry is missing;
  \<^verbatim>\<open>counts[1]?.[1] === 2\<close> is false then.\<close>

definition rank5 :: "card list \<Rightarrow> error + handrank" where
  "rank5 cards =
     (let ranks = ranks_of cards;
          suits = suits_of cards;
          counts = counts_of ranks;
          sh = straightHigh ranks
      in if isFlush suits \<and> sh \<noteq> - 1 then Inr [8, sh]
         else (case counts of
             [] \<Rightarrow> Inl TypeError
           | c0 # rest \<Rightarrow>
               if snd c0 = 4 then
                 (case rest of [] \<Rightarrow> Inl TypeError | c1 # _ \<Rightarrow> Inr [7, fst c0, fst c1])
               else if snd c0 = 3 \<and> (case rest of [] \<Rightarrow> False | c1 # _ \<Rightarrow> snd c1 = 2) then
                 Inr [6, fst c0, fst (hd rest)]
               else if isFlush suits then Inr (5 # ranks)
               else if sh \<noteq> - 1 then Inr [4, sh]
               else if snd c0 = 3 then Inr (3 # fst c0 # kickers_of counts)
               else if snd c0 = 2 \<and> (case rest of [] \<Rightarrow> False | c1 # _ \<Rightarrow> snd c1 = 2) then
                 (let pairHigh = max (fst c0) (fst (hd rest));
                      pairLow = min (fst c0) (fst (hd rest));
                      kicker = (case find (\<lambda>x. snd x = 1) counts of
                                  None \<Rightarrow> - 1 | Some x \<Rightarrow> fst x)
                  in Inr [2, pairHigh, pairLow, kicker])
               else if snd c0 = 2 then Inr (1 # fst c0 # kickers_of counts)
               else Inr (0 # ranks)))"

text \<open>\<^verbatim>\<open>compareRank\<close> walks both arrays up to the longer length, reading \<^verbatim>\<open>-1\<close>
  (\<^verbatim>\<open>a[i]??-1\<close>) past the end of the shorter one, and returns the first non-zero
  difference.\<close>

fun compareRank :: "handrank \<Rightarrow> handrank \<Rightarrow> int" where
  "compareRank [] [] = 0"
| "compareRank (av # a) [] = (if av \<noteq> - 1 then av - (- 1) else compareRank a [])"
| "compareRank [] (bv # b) = (if - 1 \<noteq> bv then - 1 - bv else compareRank [] b)"
| "compareRank (av # a) (bv # b) = (if av \<noteq> bv then av - bv else compareRank a b)"

section \<open>The 7-card selector\<close>

text \<open>The five nested loops of \<^verbatim>\<open>bestOf7\<close>, with their fixed bounds 3, 4, 5, 6, 7, yield
  the index tuples in this order whatever the length of the argument.\<close>

definition combos7 :: "nat list list" where
  "combos7 =
     concat (map (\<lambda>a.
     concat (map (\<lambda>b.
     concat (map (\<lambda>c.
     concat (map (\<lambda>d.
             map (\<lambda>e. [a, b, c, d, e]) [d + 1 ..< 7]) [c + 1 ..< 6])) [b + 1 ..< 5])) [a + 1 ..< 4])) [0 ..< 3])"

text \<open>The loop body.  \<^verbatim>\<open>[...].map(i=>cards7[i])\<close> holds \<^verbatim>\<open>undefined\<close> for an index past
  the end, and \<^verbatim>\<open>rank5\<close> then throws in \<^verbatim>\<open>cardToObj\<close> (\<^verbatim>\<open>cs[0]\<close> of \<^verbatim>\<open>undefined\<close>)
  before anything else.  \<^verbatim>\<open>best\<close> starts as \<^verbatim>\<open>null\<close>, here \<open>None\<close>.\<close>

definition rank5_js :: "card option list \<Rightarrow> error + handrank" where
  "rank5_js hand = (if None \<in> set hand then Inl TypeError else rank5 (map the hand))"

text \<open>\<^verbatim>\<open>if (!best || compareRank(r,best)>0) best = r\<close>\<close>

definition stepBest :: "handrank option \<Rightarrow> handrank \<Rightarrow> handrank option" where
  "stepBest best r =
     (case best of None \<Rightarrow> Some r | Some b \<Rightarrow> if compareRank r b > 0 then Some r else Some b)"

fun bestLoop :: "card list \<Rightarrow> nat list list \<Rightarrow> handrank option \<Rightarrow> error + handrank option" where
  "bestLoop cards7 [] best = Inr best"
| "bestLoop cards7 (ix # ixs) best =
     (case rank5_js (map (js_nth cards7) ix) of
        Inl e \<Rightarrow> Inl e
      | Inr r \<Rightarrow> bestLoop cards7 ixs (stepBest best r))"

text \<open>The loops run 21 times, so \<^verbatim>\<open>best\<close> is an array when \<^verbatim>\<open>bestOf7\<close> returns; the
  \<open>None\<close> branch below is never taken (lemma \<open>bestLoop_combos7_not_null\<close>).\<close>

definition bestOf7 :: "card list \<Rightarrow> error + handrank" where
  "bestOf7 cards7 =
     (case bestLoop cards7 combos7 None of
        Inl e \<Rightarrow> Inl e
      | Inr None \<Rightarrow> Inl TypeError
      | Inr (Some best) \<Rightarrow> Inr best)"

section \<open>The Monte Carlo simulator\<close>

record player =
  active :: bool
  isHero :: bool
  cards :: "card option list"

record simresult =
  wins :: "int list"
  ties :: "int list"
  trials :: nat

text \<open>The generator of \<^verbatim>\<open>simulateEquity\<close>:
  \<^verbatim>\<open>rand = ()=> (s = (s * 1664525 + 1013904223) >>> 0, s / 2**32)\<close>.
  With \<^verbatim>\<open>s\<close> below \<open>2^32\<close> the product and the sum stay below \<open>2^53\<close>, so the double
  arithmetic is exact and \<^verbatim>\<open>>>> 0\<close> reduces modulo \<open>2^32\<close>.  The quotient
  \<^verbatim>\<open>s / 2**32\<close> and its product with \<^verbatim>\<open>i+1\<close> (at most 52) are exact as well, so
  \<^verbatim>\<open>Math.floor(rand()*(i+1))\<close> is the integer quotient below.\<close>

definition rand_step :: "int \<Rightarrow> int" where
  "rand_step st = (st * 1664525 + 1013904223) mod 2 ^ 32"

definition rand_index :: "int \<Rightarrow> nat \<Rightarrow> nat" where
  "rand_index st k = nat ((st * int k) div 2 ^ 32)"

text \<open>The Fisher-Yates loop
  \<^verbatim>\<open>for (let i=d.length-1; i>0; i--) { const j = Math.floor(rand()*(i+1)); [d[i],d[j]] = [d[j],d[i]]; }\<close>
  from index \<open>i\<close> downwards, returning the array and the generator state.\<close>

fun shuffleLoop :: "card list \<Rightarrow> nat \<Rightarrow> int \<Rightarrow> card list \<times> int" where
  "shuffleLoop d 0 st = (d, st)"
| "shuffleLoop d (Suc i') st =
     (let i = Suc i';
          st' = rand_step st;
          j = rand_index st' (i + 1)
      in shuffleLoop (d[i := d ! j, j := d ! i]) i' st')"

definition shuffle :: "card list \<Rightarrow> int \<Rightarrow> card list \<times> int" where
  "shuffle deckArr st = shuffleLoop deckArr (length deckArr - 1) st"

text \<open>\<^verbatim>\<open>holeNeeded = players.map(p=> 2 - p.cards.filter(Boolean).length)\<close>\<close>

definition holeNeeded :: "player list \<Rightarrow> int list" where
  "holeNeeded players = map (\<lambda>p. 2 - int (length (filterBoolean (cards p)))) players"

text \<open>\<^verbatim>\<open>trialHoles = players.map((p,pi)=>{ ... })\<close>, which advances \<^verbatim>\<open>ptr\<close> by
  \<^verbatim>\<open>holeNeeded[pi]\<close> at each player; the second argument pairs every player with that
  entry.\<close>

fun dealHoles :: "(player \<times> int) list \<Rightarrow> card list \<Rightarrow> int \<Rightarrow> card list list \<times> int" where
  "dealHoles [] d ptr = ([], ptr)"
| "dealHoles ((p, need) # rest) d ptr =
     (let have = filterBoolean (cards p);
          extra = js_slice d ptr (ptr + need);
          (holes, ptr') = dealHoles rest d (ptr + need)
      in ((have @ extra) # holes, ptr'))"

text \<open>\<^verbatim>\<open>trialHoles.map(hole => bestOf7(hole.concat(trialBoard)))\<close> stops at the first
  call that throws.\<close>

fun map_throw :: "('a \<Rightarrow> error + 'b) \<Rightarrow> 'a list \<Rightarrow> error + 'b list" where
  "map_throw f [] = Inr []"
| "map_throw f (x # xs) =
     (case f x of
        Inl e \<Rightarrow> Inl e
      | Inr y \<Rightarrow> (case map_throw f xs of Inl e \<Rightarrow> Inl e | Inr ys \<Rightarrow> Inr (y # ys)))"

text \<open>\<^verbatim>\<open>let best = ranks[0]; for (let i=1;i<n;i++) if (compareRank(ranks[i],best)>0) best = ranks[i];\<close>
  and then the indices whose rank compares equal to \<^verbatim>\<open>best\<close>.  With no player both
  loops are skipped and \<^verbatim>\<open>winners\<close> stays empty.\<close>

definition bestRank :: "handrank \<Rightarrow> handrank list \<Rightarrow> handrank" where
  "bestRank r0 rest = foldl (\<lambda>best x. if compareRank x best > 0 then x else best) r0 rest"

definition winners_of :: "handrank list \<Rightarrow> nat list" where
  "winners_of ranks =
     (case ranks of
        [] \<Rightarrow> []
      | r0 # rest \<Rightarrow>
          filter (\<lambda>i. compareRank (ranks ! i) (bestRank r0 rest) = 0) [0 ..< length ranks])"

text \<open>\<^verbatim>\<open>if (winners.length===1) wins[winners[0]]++; else { for (const w of winners) ties[w]++; }\<close>\<close>

definition incr :: "int list \<Rightarrow> nat \<Rightarrow> int list" where
  "incr xs i = xs[i := xs ! i + 1]"

definition tally :: "nat list \<Rightarrow> int list \<times> int list \<Rightarrow> int list \<times> int list" where
  "tally winners wt =
     (if length winners = 1 then (incr (fst wt) (winners ! 0), snd wt)
      else (fst wt, foldl incr (snd wt) winners))"

text \<open>One pass of the trial loop up to the list of winners, from the generator state
  \<open>st\<close>.\<close>

definition runTrial ::
  "player list \<Rightarrow> card list \<Rightarrow> card list \<Rightarrow> int \<Rightarrow> error + (nat list \<times> int)" where
  "runTrial players board deckArr st =
     (let needBoard = 5 - int (length board);
          (d, st') = shuffle deckArr st;
          (trialHoles, ptr) = dealHoles (zip players (holeNeeded players)) d 0;
          trialBoard = board @ js_slice d ptr (ptr + needBoard)
      in case map_throw (\<lambda>hole. bestOf7 (hole @ trialBoard)) trialHoles of
           Inl e \<Rightarrow> Inl e
         | Inr ranks \<Rightarrow> Inr (winners_of ranks, st'))"

text \<open>\<^verbatim>\<open>for (let t=0; t<trials; t++)\<close>, counted by the passes that remain.\<close>

fun trialsLoop ::
  "player list \<Rightarrow> card list \<Rightarrow> card list \<Rightarrow> nat \<Rightarrow> (int list \<times> int list) \<times> int
     \<Rightarrow> error + ((int list \<times> int list) \<times> int)" where
  "trialsLoop players board deckArr 0 acc = Inr acc"
| "trialsLoop players board deckArr (Suc k) acc =
     (case runTrial players board deckArr (snd acc) of
        Inl e \<Rightarrow> Inl e
      | Inr (winners, st') \<Rightarrow> trialsLoop players board deckArr k (tally winners (fst acc), st'))"

text \<open>\<^verbatim>\<open>used = new Set([ ...board, ...dead, ...players.flatMap(p=>p.cards).filter(Boolean) ])\<close>
  and \<^verbatim>\<open>baseDeck = makeDeck().filter(c=>!used.has(c))\<close>.\<close>

definition usedCards :: "player list \<Rightarrow> card list \<Rightarrow> card list \<Rightarrow> card list" where
  "usedCards players board dead = board @ dead @ filterBoolean (concat (map cards players))"

definition baseDeck :: "player list \<Rightarrow> card list \<Rightarrow> card list \<Rightarrow> card list" where
  "baseDeck players board dead = filter (\<lambda>c. c \<notin> set (usedCards players board dead)) makeDeck"

text \<open>The guard \<^verbatim>\<open>baseDeck.length < needBoard + holeNeeded.reduce((a,b)=>a+b,0)\<close>.\<close>

definition deckShort :: "player list \<Rightarrow> card list \<Rightarrow> card list \<Rightarrow> bool" where
  "deckShort players board dead =
     (int (length (baseDeck players board dead))
        < (5 - int (length board)) + foldl (+) 0 (holeNeeded players))"

text \<open>\<^verbatim>\<open>simulateEquity({ players, heroIndex, board, dead, trials=5000, rngSeed })\<close>.
  \<^verbatim>\<open>heroIndex\<close> is not read by the body and is left out; an absent \<^verbatim>\<open>trials\<close> or
  \<^verbatim>\<open>rngSeed\<close> is \<open>None\<close>.  \<^verbatim>\<open>seed >>> 0\<close> reduces an integer seed modulo \<open>2^32\<close>.\<close>

definition trialsOrDefault :: "nat option \<Rightarrow> nat" where
  "trialsOrDefault trialsArg = (case trialsArg of None \<Rightarrow> 5000 | Some t \<Rightarrow> t)"

definition seedState :: "int option \<Rightarrow> int" where
  "seedState rngSeed = (let seed = (case rngSeed of None \<Rightarrow> 1337 | Some x \<Rightarrow> x) in seed mod 2 ^ 32)"

definition simulateEquity ::
  "player list \<Rightarrow> card list \<Rightarrow> card list \<Rightarrow> nat option \<Rightarrow> int option \<Rightarrow> error + simresult" where
  "simulateEquity players board dead trialsArg rngSeed =
     (let st = seedState rngSeed;
          deckArr = baseDeck players board dead;
          n = length players;
          wins0 = replicate n 0;
          ties0 = replicate n 0
      in if deckShort players board dead
         then Inr \<lparr> wins = wins0, ties = ties0, trials = 0 \<rparr>
         else (case trialsLoop players board deckArr (trialsOrDefault trialsArg) ((wins0, ties0), st) of
                 Inl e \<Rightarrow> Inl e
               | Inr ((w, t), _) \<Rightarrow>
                   Inr \<lparr> wins = w, ties = t, trials = trialsOrDefault trialsArg \<rparr>))"

text \<open>The winners of the successive trials of a run, in order: the same passes as
  \<open>trialsLoop\<close>, recording each \<^verbatim>\<open>winners\<close> array instead of tallying it.  It is
  used to state what the counters count.\<close>

fun trialLog ::
  "player list \<Rightarrow> card list \<Rightarrow> card list \<Rightarrow> nat \<Rightarrow> int \<Rightarrow> error + nat list list" where
  "trialLog players board deckArr 0 st = Inr []"
| "trialLog players board deckArr (Suc k) st =
     (case runTrial players board deckArr st of
        Inl e \<Rightarrow> Inl e
      | Inr (winners, st') \<Rightarrow>
          (case trialLog players board deckArr k st' of
             Inl e \<Rightarrow> Inl e
           | Inr rest \<Rightarrow> Inr (winners # rest)))"

definition simulationLog ::
  "player list \<Rightarrow> card list \<Rightarrow> card list \<Rightarrow> nat option \<Rightarrow> int option \<Rightarrow> error + nat list list" where
  "simulationLog players board dead trialsArg rngSeed =
     (if deckShort players board dead then Inr []
      else trialLog players board (baseDeck players board dead)
             (trialsOrDefault trialsArg) (seedState rngSeed))"

section \<open>JavaScript numbers\<close>

text \<open>
  A JavaScript number is an IEEE 754 double.  The counters of a simulation are integers
  far below \<open>2^53\<close> and are held exactly, but \<^verbatim>\<open>/\<close>, \<^verbatim>\<open>+\<close> and \<^verbatim>\<open>*\<close> return the exact
  result rounded to the nearest double, ties to the even significand.  A double is
  represented by the rational it denotes.  \<open>fl64\<close> rounds a rational to 53 significant
  bits; the exponent range (overflow, subnormal numbers) is not modelled, and division by
  zero does not occur where the operations are used below.
\<close>

text \<open>The number of binary digits of a positive integer.\<close>

function bitLength :: "int \<Rightarrow> nat" where
  "bitLength n = (if n \<le> 0 then 0 else Suc (bitLength (n div 2)))"
  by pat_completeness auto
termination
  by (relation "measure nat") auto

declare bitLength.simps [simp del]

definition pow2 :: "int \<Rightarrow> rat" where
  "pow2 e = (if 0 \<le> e then 2 ^ nat e else 1 / 2 ^ nat (- e))"

text \<open>The exponent \<open>e\<close> of a positive rational \<open>x\<close>, with \<open>2^e \<le> x < 2^(e+1)\<close>.\<close>

definition binade :: "rat \<Rightarrow> int" where
  "binade x =
     (let (a, b) = quotient_of x;
          e0 = int (bitLength a) - int (bitLength b)
      in if pow2 e0 \<le> x then e0 else e0 - 1)"

definition roundHalfEven :: "rat \<Rightarrow> int" where
  "roundHalfEven q =
     (let n = \<lfloor>q\<rfloor>; r = q - of_int n
      in if r < 1 / 2 then n else if 1 / 2 < r then n + 1 else if even n then n else n + 1)"

definition fl64 :: "rat \<Rightarrow> rat" where
  "fl64 x =
     (if x = 0 then 0
      else (let ulp = pow2 (binade \<bar>x\<bar> - 52)
            in sgn x * of_int (roundHalfEven (\<bar>x\<bar> / ulp)) * ulp))"

definition js_add :: "rat \<Rightarrow> rat \<Rightarrow> rat" where
  "js_add x y = fl64 (x + y)"

definition js_mul :: "rat \<Rightarrow> rat \<Rightarrow> rat" where
  "js_mul x y = fl64 (x * y)"

definition js_div :: "rat \<Rightarrow> rat \<Rightarrow> rat" where
  "js_div x y = fl64 (x / y)"

text \<open>The largest relative error of one rounding, \<open>2^-53\<close>.\<close>

definition unitRoundoff :: rat where
  "unitRoundoff = 1 / 2 ^ 53"

section \<open>The equity curve\<close>

text \<open>The effect of \<^verbatim>\<open>PokerStudApp\<close> that fills \<^verbatim>\<open>equityData\<close>.
  \<^verbatim>\<open>players.find(p=>p.isHero) || players[0]\<close> is \<^verbatim>\<open>undefined\<close> for an empty array, and
  reading \<^verbatim>\<open>hero.cards\<close> throws then.  The equity
  \<^verbatim>\<open>(sim.wins[0] + sim.ties[0]/tieBuckets) / sim.trials * 100\<close> is computed in doubles,
  one rounding for each of the four operations, in the order the expression is evaluated.\<close>

definition findHero :: "player list \<Rightarrow> player option" where
  "findHero players = (case find isHero players of Some p \<Rightarrow> Some p | None \<Rightarrow> js_nth players 0)"

definition simPlayers :: "card list \<Rightarrow> nat \<Rightarrow> player list" where
  "simPlayers hCards opp =
     \<lparr> active = True, isHero = True, cards = map Some hCards \<rparr>
       # replicate opp \<lparr> active = True, isHero = False, cards = [None, None] \<rparr>"

definition tieBuckets :: "simresult \<Rightarrow> int" where
  "tieBuckets sim = max 1 (foldl (\<lambda>a b. a + (if b > 0 then 1 else 0)) 0 (ties sim))"

definition equityOf :: "simresult \<Rightarrow> rat" where
  "equityOf sim =
     (if trials sim \<noteq> 0
      then js_mul
             (js_div
                (js_add (of_int (wins sim ! 0))
                        (js_div (of_int (ties sim ! 0)) (of_int (tieBuckets sim))))
                (of_nat (trials sim)))
             100
      else 0)"

text \<open>The same expression without rounding, for comparison with \<open>equityOf\<close>.\<close>

definition exactEquity :: "simresult \<Rightarrow> rat" where
  "exactEquity sim =
     (of_int (wins sim ! 0) + of_int (ties sim ! 0) / of_int (tieBuckets sim))
       / of_nat (trials sim) * 100"

definition curvePoint :: "card list \<Rightarrow> nat \<Rightarrow> error + (nat \<times> rat)" where
  "curvePoint hCards opp =
     (case simulateEquity (simPlayers hCards opp) [] [] (Some 2500) None of
        Inl e \<Rightarrow> Inl e
      | Inr sim \<Rightarrow> Inr (opp, equityOf sim))"

definition equityCurve :: "player list \<Rightarrow> error + (nat \<times> rat) list" where
  "equityCurve players =
     (case findHero players of
        None \<Rightarrow> Inl TypeError
      | Some hero \<Rightarrow>
          (let hCards = filterBoolean (cards hero)
           in if length hCards \<noteq> 2 then Inr []
              else map_throw (curvePoint hCards) [1 ..< 9]))"

section \<open>Auxiliary notions for the proofs\<close>

text \<open>The entry \<^verbatim>\<open>a[0] ?? -1\<close> that \<^verbatim>\<open>compareRank\<close> reads first.\<close>

definition headOr :: "handrank \<Rightarrow> int" where
  "headOr a = (case a of [] \<Rightarrow> - 1 | x # _ \<Rightarrow> x)"

text \<open>\<^verbatim>\<open>sortedUniq\<close> of \<^verbatim>\<open>rank5\<close>, as a function of \<^verbatim>\<open>ranks\<close>.\<close>

definition sortedUniq_of :: "int list \<Rightarrow> int list" where
  "sortedUniq_of xs = sort_key (\<lambda>v. - v) (js_set xs)"

section \<open>Example inputs\<close>

definition heroSeat :: player where
  "heroSeat = \<lparr> active = True, isHero = True, cards = [Some (R2, Sh), Some (R3, Sh)] \<rparr>"

definition foldedSeat :: player where
  "foldedSeat = \<lparr> active = False, isHero = False, cards = [None, None] \<rparr>"

definition unknownSeat :: player where
  "unknownSeat = \<lparr> active = True, isHero = False, cards = [None, None] \<rparr>"

definition royalBoard :: "card list" where
  "royalBoard = [(RA, Ss), (RK, Ss), (RQ, Ss), (RJ, Ss), (RT, Ss)]"

definition sevenCards :: "card list" where
  "sevenCards = [(RA, Ss), (R2, Sh), (R3, Sd), (R4, Sc), (R5, Sc), (R6, Sc), (R6, Sd)]"

definition twoPairHand :: "card list" where
  "twoPairHand = [(RA, Ss), (RA, Sh), (RQ, Ss), (RQ, Sd), (RT, Ss)]"

definition fiveCards :: "card list" where
  "fiveCards = [(RA, Ss), (R2, Sh), (R3, Sd), (R4, Sc), (R5, Sc)]"

section \<open>Basic facts\<close>

lemma foldl_plus_sum_list: "foldl (+) a xs = a + sum_list (xs :: int list)"
  by (induction xs arbitrary: a) auto

lemma deckShort_iff:
  "deckShort players board dead
     \<longleftrightarrow> int (length (baseDeck players board dead))
           < 5 - int (length board) + sum_list (holeNeeded players)"
  by (simp add: deckShort_def foldl_plus_sum_list)

section \<open>The comparator\<close>

lemma compareRank_refl: "compareRank a a = 0"
  by (induction a) auto

lemma compareRank_antisym: "compareRank b a = - compareRank a b"
  by (induction a b rule: compareRank.induct) auto

lemma compareRank_unfold:
  "compareRank a b =
     (if a = [] \<and> b = [] then 0
      else if headOr a \<noteq> headOr b then headOr a - headOr b
      else compareRank (tl a) (tl b))"
  by (cases a; cases b) (auto simp: headOr_def)

lemma compareRank_trans:
  "compareRank a b \<ge> 0 \<Longrightarrow> compareRank b c \<ge> 0 \<Longrightarrow> compareRank a c \<ge> 0"
proof (induction "length a + length b + length c" arbitrary: a b c rule: less_induct)
  case less
  show ?case
  proof (cases "a = [] \<and> b = [] \<and> c = []")
    case True
    then show ?thesis by simp
  next
    case False
    then have smaller: "length (tl a) + length (tl b) + length (tl c) < length a + length b + length c"
      by (cases a; cases b; cases c) auto
    show ?thesis
    proof (cases "headOr a = headOr b \<and> headOr b = headOr c")
      case True
      with less.prems have "compareRank (tl a) (tl b) \<ge> 0" "compareRank (tl b) (tl c) \<ge> 0"
        by (auto simp: compareRank_unfold [of a b] compareRank_unfold [of b c] compareRank_refl
              split: if_splits)
      from less.hyps [OF smaller this] True show ?thesis
        by (auto simp: compareRank_unfold [of a c])
    next
      case False
      with less.prems show ?thesis
        by (auto simp: compareRank_unfold [of a b] compareRank_unfold [of b c]
              compareRank_unfold [of a c] split: if_splits)
    qed
  qed
qed

lemma compareRank_gt_trans:
  "compareRank a b > 0 \<Longrightarrow> compareRank b c \<ge> 0 \<Longrightarrow> compareRank a c \<ge> 0"
  using compareRank_trans [of a b c] by simp

lemma compareRank_not_gt: "\<not> compareRank a b > 0 \<Longrightarrow> compareRank b a \<ge> 0"
  using compareRank_antisym [of b a] by simp

section \<open>Sets, counting maps and the ranker\<close>

lemma error_is_TypeError: "(e :: error) = TypeError"
  by (cases e) simp

lemma js_set_foldl_set:
  "set (foldl (\<lambda>seen x. if x \<in> set seen then seen else seen @ [x]) acc xs) = set acc \<union> set xs"
  by (induction xs arbitrary: acc) auto

lemma js_set_foldl_distinct:
  "distinct acc \<Longrightarrow> distinct (foldl (\<lambda>seen x. if x \<in> set seen then seen else seen @ [x]) acc xs)"
  by (induction xs arbitrary: acc) auto

lemma set_js_set [simp]: "set (js_set xs) = set xs"
  by (simp add: js_set_def js_set_foldl_set)

lemma distinct_js_set [simp]: "distinct (js_set xs)"
  by (simp add: js_set_def js_set_foldl_distinct)

lemma length_js_set: "length (js_set xs) = card (set xs)"
  using distinct_card [of "js_set xs"] by simp

lemma map_of_bump:
  "map_of (bump m v) = (map_of m)(v \<mapsto> (case map_of m v of None \<Rightarrow> 1 | Some c \<Rightarrow> c + 1))"
proof (cases "v \<in> fst ` set m")
  case False
  then have "map_of m v = None"
    by (simp add: map_of_eq_None_iff)
  with False show ?thesis
    by (auto simp: bump_def fun_eq_iff map_add_def split: option.splits)
next
  case True
  have "map_of (map (\<lambda>(k, c). if k = v then (k, c + 1) else (k, c)) m) k'
          = (if k' = v then map_option (\<lambda>c. c + 1) (map_of m v) else map_of m k')" for k'
    by (induction m) auto
  moreover from True obtain c where "map_of m v = Some c"
    by (metis domD dom_map_of_conv_image_fst)
  ultimately show ?thesis using True
    by (auto simp: bump_def fun_eq_iff)
qed

lemma keys_bump:
  "map fst (bump m v) = (if v \<in> set (map fst m) then map fst m else map fst m @ [v])"
proof -
  have "map fst (map (\<lambda>(k, c). if k = v then (k, c + 1) else (k, c)) m) = map fst m"
    by (induction m) auto
  then show ?thesis
    by (simp add: bump_def)
qed

lemma keys_foldl_bump:
  "map fst (foldl bump m xs)
     = foldl (\<lambda>seen x. if x \<in> set seen then seen else seen @ [x]) (map fst m) xs"
  by (induction xs arbitrary: m) (simp_all add: keys_bump)

lemma keys_countByRank: "map fst (countByRank xs) = js_set xs"
  by (simp add: countByRank_def js_set_def keys_foldl_bump)

lemma map_of_foldl_bump:
  "map_of (foldl bump m xs) v =
     (if v \<in> set xs \<or> v \<in> fst ` set m
      then Some ((case map_of m v of None \<Rightarrow> 0 | Some c \<Rightarrow> c) + int (count_list xs v))
      else None)"
proof (induction xs arbitrary: m)
  case Nil
  show ?case
    by (auto simp: map_of_eq_None_iff split: option.splits)
next
  case (Cons x xs)
  have keys: "fst ` set (bump m x) = insert x (fst ` set m)"
    using keys_bump [of m x] by (metis (no_types, lifting) insert_absorb list.set_map set_append
        list.simps(15) Un_insert_right sup_bot.right_neutral empty_set)
  show ?case
    by (simp add: Cons.IH keys map_of_bump split: option.splits)
qed

lemma countByRank_entries:
  "(v, c) \<in> set (countByRank xs) \<longleftrightarrow> v \<in> set xs \<and> c = int (count_list xs v)"
proof -
  have d: "distinct (map fst (countByRank xs))"
    by (simp add: keys_countByRank)
  have "(v, c) \<in> set (countByRank xs) \<longleftrightarrow> map_of (countByRank xs) v = Some c"
    using d by simp
  then show ?thesis
    by (auto simp: countByRank_def map_of_foldl_bump)
qed

lemma counts_of_entries:
  "(v, c) \<in> set (counts_of xs) \<longleftrightarrow> v \<in> set xs \<and> c = int (count_list xs v)"
  by (simp add: counts_of_def countByRank_entries)

lemma counts_of_keys: "fst ` set (counts_of xs) = set xs"
proof -
  have "set (map fst (counts_of xs)) = set (map fst (countByRank xs))"
    by (simp add: counts_of_def)
  then show ?thesis
    by (simp add: keys_countByRank)
qed

lemma counts_of_Nil_iff: "counts_of xs = [] \<longleftrightarrow> xs = []"
  using counts_of_keys [of xs] by (metis image_is_empty set_empty)

lemma distinct_counts_keys: "distinct (map fst (counts_of xs))"
proof -
  have "distinct (counts_of xs)"
    using keys_countByRank [of xs] distinct_js_set [of xs]
    by (metis counts_of_def distinct_map distinct_sort)
  moreover have "inj_on fst (set (counts_of xs))"
    by (auto simp: inj_on_def counts_of_entries)
  ultimately show ?thesis
    by (simp add: distinct_map)
qed

lemma count_list_single_set:
  "set xs = {v} \<Longrightarrow> count_list xs v = length xs"
  by (induction xs) (auto simp: subset_singleton_iff split: if_splits)

lemma counts_of_single:
  assumes "counts_of xs = [c0]"
  shows "set xs = {fst c0} \<and> snd c0 = int (length xs)"
proof -
  from assms counts_of_keys [of xs] have s: "set xs = {fst c0}"
    by simp
  have "(fst c0, snd c0) \<in> set (counts_of xs)"
    using assms by simp
  then have "snd c0 = int (count_list xs (fst c0))"
    unfolding counts_of_entries by simp
  with s show ?thesis
    by (simp add: count_list_single_set)
qed

lemma length_ranks_of [simp]: "length (ranks_of cs) = length cs"
  by (simp add: ranks_of_def)

lemma set_ranks_of: "set (ranks_of cs) = RANK_TO_VAL ` fst ` set cs"
  by (force simp: ranks_of_def cardToObj_def image_iff)

lemma set_suits_of: "set (suits_of cs) = snd ` set cs"
  by (force simp: suits_of_def cardToObj_def image_iff)

lemma rank5_five_returns:
  assumes "length cs = 5"
  shows "\<exists>hr. rank5 cs = Inr hr"
proof -
  have ne: "counts_of (ranks_of cs) \<noteq> []"
    using assms length_ranks_of [of cs] by (auto simp: counts_of_Nil_iff simp del: length_ranks_of)
  then obtain c0 rest where c: "counts_of (ranks_of cs) = c0 # rest"
    by (cases "counts_of (ranks_of cs)") auto
  have "\<not> (snd c0 = 4 \<and> rest = [])"
    using counts_of_single [of "ranks_of cs" c0] c assms by auto
  then show ?thesis
    using c by (auto simp: rank5_def Let_def split: list.splits)
qed

lemma RANK_TO_VAL_simps:
  "RANK_TO_VAL R2 = 0" "RANK_TO_VAL R3 = 1" "RANK_TO_VAL R4 = 2" "RANK_TO_VAL R5 = 3"
  "RANK_TO_VAL R6 = 4" "RANK_TO_VAL R7 = 5" "RANK_TO_VAL R8 = 6" "RANK_TO_VAL R9 = 7"
  "RANK_TO_VAL RT = 8" "RANK_TO_VAL RJ = 9" "RANK_TO_VAL RQ = 10" "RANK_TO_VAL RK = 11"
  "RANK_TO_VAL RA = 12"
  by (simp_all add: RANK_TO_VAL_def RANKS_def)

lemma RANK_TO_VAL_range: "0 \<le> RANK_TO_VAL x \<and> RANK_TO_VAL x \<le> 12"
  by (cases x) (simp_all add: RANK_TO_VAL_simps)

lemma RANK_TO_VAL_inj: "RANK_TO_VAL x = RANK_TO_VAL y \<Longrightarrow> x = y"
  by (cases x; cases y) (simp_all add: RANK_TO_VAL_simps)

lemma rank5_Nil: "rank5 [] = Inl TypeError"
  by code_simp

lemma straightLoop_short: "length su < 5 \<Longrightarrow> straightLoop su i = - 1"
  by (simp add: straightLoop.simps [of su i])

lemma straightHigh_one_rank: "set xs = {v} \<Longrightarrow> straightHigh xs = - 1"
proof -
  assume a: "set xs = {v}"
  then have "length (js_set xs) = 1"
    by (simp add: length_js_set)
  then have "straightLoop (sort_key (\<lambda>v. - v) (js_set xs)) 0 = - 1"
    by (simp add: straightLoop_short)
  moreover have "\<not> (0 \<in> set xs \<and> 1 \<in> set xs)"
    using a by auto
  ultimately show ?thesis
    by (auto simp: straightHigh_def Let_def)
qed

lemma bump_Nil: "bump [] v = [(v, 1)]"
  by (simp add: bump_def)

lemma bump_same: "bump [(v, c)] v = [(v, c + 1)]"
  by (simp add: bump_def)

lemma counts_of_four_same: "counts_of [v, v, v, v] = [(v, 4)]"
  by (simp add: counts_of_def countByRank_def bump_Nil bump_same)

lemma rank5_four_of_one_rank:
  assumes "length cs = 4" "\<forall>c\<in>set cs. fst c = fst (hd cs)"
  shows "rank5 cs = Inl TypeError"
proof -
  define v where "v = RANK_TO_VAL (fst (hd cs))"
  from assms(1) have ne: "cs \<noteq> []" by auto
  have "y = v" if "y \<in> set (ranks_of cs)" for y
  proof -
    from that obtain c where "c \<in> set cs" "y = RANK_TO_VAL (fst c)"
      unfolding set_ranks_of by blast
    with assms(2) show ?thesis
      unfolding v_def by simp
  qed
  then have "\<forall>y\<in>set (ranks_of cs). y = v" by blast
  from replicate_length_same [OF this] assms(1)
  have "ranks_of cs = replicate 4 v" by simp
  then have r: "ranks_of cs = [v, v, v, v]"
    by (simp add: numeral_eq_Suc)
  have sh: "straightHigh [v, v, v, v] = - 1"
    by (rule straightHigh_one_rank [of _ v]) simp
  have "rank5 cs = (if isFlush (suits_of cs) \<and> straightHigh [v, v, v, v] \<noteq> - 1
                    then Inr [8, straightHigh [v, v, v, v]] else Inl TypeError)"
    unfolding rank5_def Let_def r counts_of_four_same by simp
  then show ?thesis
    unfolding sh by simp
qed

lemma rank5_throws_only:
  assumes "rank5 cs = Inl e"
  shows "cs = [] \<or> (length cs = 4 \<and> (\<forall>c\<in>set cs. fst c = fst (hd cs)))"
proof (cases "cs = []")
  case True
  then show ?thesis by simp
next
  case False
  then have "counts_of (ranks_of cs) \<noteq> []"
    using length_ranks_of [of cs] by (auto simp: counts_of_Nil_iff simp del: length_ranks_of)
  then obtain c0 rest where c: "counts_of (ranks_of cs) = c0 # rest"
    by (cases "counts_of (ranks_of cs)") auto
  from assms c have "snd c0 = 4 \<and> rest = []"
    by (auto simp: rank5_def Let_def split: if_splits list.splits)
  with c have one: "counts_of (ranks_of cs) = [c0]" and four: "snd c0 = 4"
    by simp_all
  from counts_of_single [OF one] four
  have s: "set (ranks_of cs) = {fst c0}" and len: "length cs = 4"
    by simp_all
  have "fst c = fst (hd cs)" if "c \<in> set cs" for c
  proof -
    from False have "hd cs \<in> set cs" by simp
    then have "RANK_TO_VAL (fst (hd cs)) \<in> set (ranks_of cs)"
      by (simp add: set_ranks_of)
    moreover from that have "RANK_TO_VAL (fst c) \<in> set (ranks_of cs)"
      by (simp add: set_ranks_of)
    ultimately have "RANK_TO_VAL (fst c) = RANK_TO_VAL (fst (hd cs))"
      unfolding s by simp
    then show ?thesis by (rule RANK_TO_VAL_inj)
  qed
  with len show ?thesis by simp
qed

section \<open>Straights\<close>

lemma straightLoop_five:
  "straightLoop [a, b, c, d, e] 0 = (if a - e = 4 then a else - 1)"
proof -
  have w: "js_slice [a, b, c, d, e] (int 0) (int 0 + 5) = [a, b, c, d, e]"
    by (simp add: js_slice_def)
  have "straightLoop [a, b, c, d, e] (0 + 1) = - 1"
    by (subst straightLoop.simps) simp
  then show ?thesis
    by (subst straightLoop.simps) (simp add: w Let_def del: of_nat_0)
qed

lemma five_list:
  assumes "length xs = 5"
  obtains a b c d e where "xs = [a, b, c, d, e]"
proof -
  from assms have "length xs = Suc (Suc (Suc (Suc (Suc 0))))"
    by simp
  then show ?thesis
    using that by (auto simp: length_Suc_conv)
qed

lemma sortedUniq_props:
  "set (sortedUniq_of xs) = set xs" "distinct (sortedUniq_of xs)"
  "sorted (map uminus (sortedUniq_of xs))" "length (sortedUniq_of xs) = card (set xs)"
  by (simp_all add: sortedUniq_of_def length_js_set sorted_sort_key)

lemma straightHigh_alt:
  "straightHigh xs =
     (let sh = straightLoop (sortedUniq_of xs) 0
      in if sh = - 1 \<and> 12 \<in> set xs \<and> 0 \<in> set xs \<and> 1 \<in> set xs \<and> 2 \<in> set xs \<and> 3 \<in> set xs
         then 3 else sh)"
  unfolding straightHigh_def sortedUniq_of_def Let_def by (simp add: RANK_TO_VAL_simps)

lemma desc_five:
  assumes "sorted (map uminus [a, b, c, d, e :: int])" "distinct [a, b, c, d, e]"
  shows "a > b \<and> b > c \<and> c > d \<and> d > e"
  using assms by auto

lemma straightHigh_five_distinct:
  assumes "card (set xs) = 5"
  obtains a b c d e where "set xs = {a, b, c, d, e}" "a > b" "b > c" "c > d" "d > e"
    "straightHigh xs =
       (if a - e = 4 then a
        else if 12 \<in> set xs \<and> 0 \<in> set xs \<and> 1 \<in> set xs \<and> 2 \<in> set xs \<and> 3 \<in> set xs then 3
        else - 1)"
proof -
  have "length (sortedUniq_of xs) = 5"
    using assms by (simp add: sortedUniq_props)
  then obtain a b c d e where su: "sortedUniq_of xs = [a, b, c, d, e]"
    by (rule five_list)
  have ord: "a > b \<and> b > c \<and> c > d \<and> d > e"
    using sortedUniq_props(3,2) [of xs] unfolding su by (rule desc_five)
  have s: "set xs = {a, b, c, d, e}"
    using sortedUniq_props(1) [of xs] unfolding su by simp
  have lo: "0 \<in> set xs \<Longrightarrow> e \<le> 0" and hi: "12 \<in> set xs \<Longrightarrow> 12 \<le> a"
    using ord unfolding s by auto
  have "straightHigh xs =
       (if a - e = 4 then a
        else if 12 \<in> set xs \<and> 0 \<in> set xs \<and> 1 \<in> set xs \<and> 2 \<in> set xs \<and> 3 \<in> set xs then 3
        else - 1)"
  proof (cases "a - e = 4")
    case True
    with lo hi have "\<not> (12 \<in> set xs \<and> 0 \<in> set xs)"
      by auto
    with True show ?thesis
      unfolding straightHigh_alt su straightLoop_five Let_def by auto
  next
    case False
    then show ?thesis
      unfolding straightHigh_alt su straightLoop_five Let_def by simp
  qed
  with s ord show ?thesis
    using that by blast
qed

lemma straightHigh_few_ranks:
  assumes "card (set xs) < 5"
  shows "straightHigh xs = - 1"
proof -
  have "length (sortedUniq_of xs) < 5"
    using assms by (simp add: sortedUniq_props)
  then have l: "straightLoop (sortedUniq_of xs) 0 = - 1"
    by (rule straightLoop_short)
  have "\<not> (12 \<in> set xs \<and> 0 \<in> set xs \<and> 1 \<in> set xs \<and> 2 \<in> set xs \<and> 3 \<in> set xs)"
  proof
    assume "12 \<in> set xs \<and> 0 \<in> set xs \<and> 1 \<in> set xs \<and> 2 \<in> set xs \<and> 3 \<in> set xs"
    then have "{0, 1, 2, 3, 12 :: int} \<subseteq> set xs" by simp
    then have "card {0, 1, 2, 3, 12 :: int} \<le> card (set xs)"
      by (intro card_mono) simp_all
    with assms show False by simp
  qed
  with l show ?thesis
    unfolding straightHigh_alt Let_def by simp
qed

lemma five_desc_bounds:
  assumes "S = {a, b, c, d, e :: int}" "a > b" "b > c" "c > d" "d > e"
  shows "a \<in> S" "e \<in> S" "\<forall>x\<in>S. e \<le> x \<and> x \<le> a"
  using assms by auto

lemma straightHigh_run:
  assumes "set xs = {h - 4 .. h}"
  shows "straightHigh xs = h"
proof -
  have "card (set xs) = 5"
    unfolding assms by simp
  then obtain a b c d e where f: "set xs = {a, b, c, d, e}" "a > b" "b > c" "c > d" "d > e"
    "straightHigh xs =
       (if a - e = 4 then a
        else if 12 \<in> set xs \<and> 0 \<in> set xs \<and> 1 \<in> set xs \<and> 2 \<in> set xs \<and> 3 \<in> set xs then 3
        else - 1)"
    by (rule straightHigh_five_distinct)
  note bd = five_desc_bounds [OF f(1-5)]
  have "a \<le> h" "h - 4 \<le> e"
    using bd(1,2) unfolding assms by simp_all
  with f(2-5) have "a = h \<and> e = h - 4"
    by simp
  with f(6) show ?thesis by simp
qed

lemma straightHigh_wheel:
  assumes "set xs = {0, 1, 2, 3, 12}"
  shows "straightHigh xs = 3"
proof -
  have "card (set xs) = 5"
    unfolding assms by simp
  then obtain a b c d e where f: "set xs = {a, b, c, d, e}" "a > b" "b > c" "c > d" "d > e"
    "straightHigh xs =
       (if a - e = 4 then a
        else if 12 \<in> set xs \<and> 0 \<in> set xs \<and> 1 \<in> set xs \<and> 2 \<in> set xs \<and> 3 \<in> set xs then 3
        else - 1)"
    by (rule straightHigh_five_distinct)
  note bd = five_desc_bounds [OF f(1-5)]
  have "12 \<in> set xs" "0 \<in> set xs"
    unfolding assms by simp_all
  with bd(3) have "12 \<le> a" "e \<le> 0"
    by auto
  then have "a - e \<noteq> 4" by simp
  with f(6) show ?thesis
    unfolding assms by simp
qed

lemma straightHigh_none:
  assumes "\<forall>h. set xs \<noteq> {h - 4 .. h}" "set xs \<noteq> {0, 1, 2, 3, 12}" "length xs = 5"
  shows "straightHigh xs = - 1"
proof (cases "card (set xs) = 5")
  case False
  moreover have "card (set xs) \<le> 5"
    using card_length [of xs] assms(3) by simp
  ultimately have "card (set xs) < 5" by simp
  then show ?thesis by (rule straightHigh_few_ranks)
next
  case True
  then obtain a b c d e where f: "set xs = {a, b, c, d, e}" "a > b" "b > c" "c > d" "d > e"
    "straightHigh xs =
       (if a - e = 4 then a
        else if 12 \<in> set xs \<and> 0 \<in> set xs \<and> 1 \<in> set xs \<and> 2 \<in> set xs \<and> 3 \<in> set xs then 3
        else - 1)"
    by (rule straightHigh_five_distinct)
  note bd = five_desc_bounds [OF f(1-5)]
  have no_run: "a - e \<noteq> 4"
  proof
    assume ae: "a - e = 4"
    from bd(3) ae have sub: "set xs \<subseteq> {a - 4 .. a}"
      by auto
    have "card (set xs) = card {a - 4 .. a}"
      using True by simp
    with sub have "set xs = {a - 4 .. a}"
      by (intro card_subset_eq) simp_all
    with assms(1) show False by blast
  qed
  have no_wheel: "\<not> (12 \<in> set xs \<and> 0 \<in> set xs \<and> 1 \<in> set xs \<and> 2 \<in> set xs \<and> 3 \<in> set xs)"
  proof
    assume "12 \<in> set xs \<and> 0 \<in> set xs \<and> 1 \<in> set xs \<and> 2 \<in> set xs \<and> 3 \<in> set xs"
    then have sub: "{0, 1, 2, 3, 12 :: int} \<subseteq> set xs" by simp
    have "card {0, 1, 2, 3, 12 :: int} = card (set xs)"
      using True by simp
    with sub have "{0, 1, 2, 3, 12 :: int} = set xs"
      by (intro card_subset_eq) simp_all
    with assms(2) show False by simp
  qed
  from f(6) no_run no_wheel show ?thesis by simp
qed

lemma isFlush_iff:
  assumes "cs \<noteq> []"
  shows "isFlush (suits_of cs) \<longleftrightarrow> (\<forall>c\<in>set cs. snd c = snd (hd cs))"
proof -
  have "isFlush (suits_of cs) \<longleftrightarrow> card (snd ` set cs) = 1"
    by (simp add: isFlush_def length_js_set set_suits_of)
  also have "\<dots> \<longleftrightarrow> (\<exists>x. snd ` set cs = {x})"
    by (simp add: card_1_singleton_iff)
  also have "\<dots> \<longleftrightarrow> (\<forall>c\<in>set cs. snd c = snd (hd cs))"
  proof
    assume "\<exists>x. snd ` set cs = {x}"
    then obtain x where x: "snd ` set cs = {x}" by blast
    have "snd c = x" if "c \<in> set cs" for c
      using that x by blast
    moreover have "hd cs \<in> set cs"
      using assms by simp
    ultimately show "\<forall>c\<in>set cs. snd c = snd (hd cs)"
      by metis
  next
    assume a: "\<forall>c\<in>set cs. snd c = snd (hd cs)"
    have "hd cs \<in> set cs"
      using assms by simp
    then have "snd (hd cs) \<in> snd ` set cs"
      by (rule imageI)
    moreover from a have "snd ` set cs \<subseteq> {snd (hd cs)}"
      by blast
    ultimately have "snd ` set cs = {snd (hd cs)}"
      by blast
    then show "\<exists>x. snd ` set cs = {x}" by blast
  qed
  finally show ?thesis .
qed

lemma count_list_distinct: "distinct xs \<Longrightarrow> x \<in> set xs \<Longrightarrow> count_list xs x = 1"
  by (induction xs) (auto simp: count_list_0_iff)

lemma rank5_straight:
  assumes "length cs = 5" "card (set (ranks_of cs)) = 5" "straightHigh (ranks_of cs) \<noteq> - 1"
  shows "rank5 cs = Inr [if isFlush (suits_of cs) then 8 else 4, straightHigh (ranks_of cs)]"
proof -
  have d: "distinct (ranks_of cs)"
    using assms(1,2) by (intro card_distinct) simp
  have "counts_of (ranks_of cs) \<noteq> []"
    using assms(1) length_ranks_of [of cs] by (auto simp: counts_of_Nil_iff simp del: length_ranks_of)
  then obtain c0 rest where c: "counts_of (ranks_of cs) = c0 # rest"
    by (cases "counts_of (ranks_of cs)") auto
  then have "(fst c0, snd c0) \<in> set (counts_of (ranks_of cs))"
    by simp
  then have "fst c0 \<in> set (ranks_of cs)" "snd c0 = int (count_list (ranks_of cs) (fst c0))"
    unfolding counts_of_entries by simp_all
  with d have one: "snd c0 = 1"
    by (simp add: count_list_distinct)
  show ?thesis
    unfolding rank5_def Let_def c using assms(3) one by simp
qed

lemma rank5_no_straight:
  assumes "length cs = 5" "straightHigh (ranks_of cs) = - 1"
  shows "\<exists>hr. rank5 cs = Inr hr \<and> hd hr \<noteq> 4 \<and> hd hr \<noteq> 8"
proof -
  from rank5_five_returns [OF assms(1)] obtain hr where hr: "rank5 cs = Inr hr"
    by blast
  then have "hd hr \<noteq> 4 \<and> hd hr \<noteq> 8"
    unfolding rank5_def Let_def assms(2)
    by (auto split: list.splits if_splits)
  with hr show ?thesis by blast
qed

section \<open>The selector loop\<close>

lemma combos7_eq:
  "combos7 = [ [0, 1, 2, 3, 4], [0, 1, 2, 3, 5], [0, 1, 2, 3, 6], [0, 1, 2, 4, 5], [0, 1, 2, 4, 6], [0, 1, 2, 5, 6], [0, 1, 3, 4, 5], [0, 1, 3, 4, 6], [0, 1, 3, 5, 6], [0, 1, 4, 5, 6], [0, 2, 3, 4, 5], [0, 2, 3, 4, 6], [0, 2, 3, 5, 6], [0, 2, 4, 5, 6], [0, 3, 4, 5, 6], [1, 2, 3, 4, 5], [1, 2, 3, 4, 6], [1, 2, 3, 5, 6], [1, 2, 4, 5, 6], [1, 3, 4, 5, 6], [2, 3, 4, 5, 6] ]"
  by code_simp

lemma rank5_js_Some: "rank5_js (map Some h) = rank5 h"
  by (simp add: rank5_js_def comp_def)

lemma rank5_js_in_range:
  "\<forall>i\<in>set ix. i < length cs \<Longrightarrow> rank5_js (map (js_nth cs) ix) = rank5 (map ((!) cs) ix)"
proof -
  assume a: "\<forall>i\<in>set ix. i < length cs"
  then have "map (js_nth cs) ix = map Some (map ((!) cs) ix)"
    by (simp add: js_nth_def)
  then show ?thesis
    by (simp only: rank5_js_Some)
qed

lemma rank5_js_out_of_range:
  "\<exists>i\<in>set ix. \<not> i < length cs \<Longrightarrow> rank5_js (map (js_nth cs) ix) = Inl TypeError"
  by (force simp: rank5_js_def js_nth_def image_iff)

lemma bestLoop_Inr_in_range:
  "bestLoop cs ixs best = Inr b \<Longrightarrow> \<forall>ix\<in>set ixs. \<forall>i\<in>set ix. i < length cs"
proof (induction ixs arbitrary: best)
  case Nil
  then show ?case by simp
next
  case (Cons ix ixs)
  show ?case
  proof (cases "\<forall>i\<in>set ix. i < length cs")
    case False
    then have "rank5_js (map (js_nth cs) ix) = Inl TypeError"
      using rank5_js_out_of_range [of ix cs] by blast
    with Cons.prems show ?thesis by simp
  next
    case True
    from Cons.prems obtain r nb where "bestLoop cs ixs nb = Inr b"
      by (auto split: sum.splits)
    from Cons.IH [OF this] True show ?thesis by simp
  qed
qed

lemma stepBest_props:
  "\<exists>v. stepBest best r = Some v \<and> compareRank v r \<ge> 0
        \<and> (\<forall>b. best = Some b \<longrightarrow> compareRank v b \<ge> 0) \<and> (v = r \<or> best = Some v)"
proof (cases best)
  case None
  then show ?thesis
    by (simp add: stepBest_def compareRank_refl)
next
  case (Some b)
  then show ?thesis
    using compareRank_not_gt [of r b] by (simp add: stepBest_def compareRank_refl)
qed

lemma bestLoop_max:
  assumes "\<forall>ix\<in>set ixs. length ix = 5 \<and> (\<forall>i\<in>set ix. i < length cs)"
  shows "\<exists>b'. bestLoop cs ixs best = Inr b'
           \<and> (ixs \<noteq> [] \<or> best \<noteq> None \<longrightarrow> b' \<noteq> None)
           \<and> (\<forall>r. b' = Some r \<longrightarrow>
                 (\<forall>ix\<in>set ixs. \<forall>rh. rank5 (map ((!) cs) ix) = Inr rh \<longrightarrow> compareRank r rh \<ge> 0)
               \<and> (\<forall>b. best = Some b \<longrightarrow> compareRank r b \<ge> 0)
               \<and> (best = Some r \<or> (\<exists>ix\<in>set ixs. rank5 (map ((!) cs) ix) = Inr r)))"
  using assms
proof (induction ixs arbitrary: best)
  case Nil
  show ?case by (simp add: compareRank_refl)
next
  case (Cons ix ixs)
  from Cons.prems have len: "length (map ((!) cs) ix) = 5" and rng: "\<forall>i\<in>set ix. i < length cs"
    by simp_all
  from rank5_five_returns [OF len] obtain r0 where r0: "rank5 (map ((!) cs) ix) = Inr r0"
    by blast
  have js: "rank5_js (map (js_nth cs) ix) = Inr r0"
    using rank5_js_in_range [OF rng] r0 by simp
  obtain v where v: "stepBest best r0 = Some v" "compareRank v r0 \<ge> 0"
    "\<forall>b. best = Some b \<longrightarrow> compareRank v b \<ge> 0" "v = r0 \<or> best = Some v"
    using stepBest_props [of best r0] by blast
  have unfold: "bestLoop cs (ix # ixs) best = bestLoop cs ixs (Some v)"
    using js v(1) by simp
  from Cons.prems have "\<forall>ix\<in>set ixs. length ix = 5 \<and> (\<forall>i\<in>set ix. i < length cs)"
    by simp
  from Cons.IH [OF this, of "Some v"] obtain r where
    r: "bestLoop cs ixs (Some v) = Inr (Some r)"
       "\<forall>ix\<in>set ixs. \<forall>rh. rank5 (map ((!) cs) ix) = Inr rh \<longrightarrow> compareRank r rh \<ge> 0"
       "compareRank r v \<ge> 0"
       "v = r \<or> (\<exists>ix\<in>set ixs. rank5 (map ((!) cs) ix) = Inr r)"
    by auto
  have ge_r0: "compareRank r r0 \<ge> 0"
    using compareRank_trans [OF r(3) v(2)] .
  have ge_b: "compareRank r b \<ge> 0" if "best = Some b" for b
    using compareRank_trans [OF r(3)] v(3) that by blast
  have origin: "best = Some r \<or> (\<exists>ix'\<in>set (ix # ixs). rank5 (map ((!) cs) ix') = Inr r)"
    using r(4) v(4) r0 by auto
  show ?case
    unfolding unfold r(1) using r(2) ge_r0 ge_b origin r0 by auto
qed

lemma combos7_shape:
  "\<forall>ix\<in>set combos7. length ix = 5 \<and> (\<forall>i\<in>set ix. i < 7)"
  by (simp add: combos7_eq)

lemma bestLoop_combos7_not_null: "bestLoop cs combos7 None \<noteq> Inr None"
proof
  assume a: "bestLoop cs combos7 None = Inr None"
  from bestLoop_Inr_in_range [OF a] have "\<forall>ix\<in>set combos7. \<forall>i\<in>set ix. i < length cs" .
  with combos7_shape have "\<forall>ix\<in>set combos7. length ix = 5 \<and> (\<forall>i\<in>set ix. i < length cs)"
    by blast
  from bestLoop_max [OF this, of None] a show False
    by (auto simp: combos7_eq)
qed

lemma bestOf7_seven:
  assumes "length cs = 7"
  shows "\<exists>r. bestOf7 cs = Inr r
           \<and> (\<forall>ix\<in>set combos7. \<forall>rh. rank5 (map ((!) cs) ix) = Inr rh \<longrightarrow> compareRank r rh \<ge> 0)
           \<and> (\<exists>ix\<in>set combos7. rank5 (map ((!) cs) ix) = Inr r)"
proof -
  from combos7_shape assms
  have "\<forall>ix\<in>set combos7. length ix = 5 \<and> (\<forall>i\<in>set ix. i < length cs)"
    by simp
  from bestLoop_max [OF this, of None] obtain b' where
    b: "bestLoop cs combos7 None = Inr b'" "combos7 \<noteq> [] \<longrightarrow> b' \<noteq> None"
       "\<forall>r. b' = Some r \<longrightarrow>
          (\<forall>ix\<in>set combos7. \<forall>rh. rank5 (map ((!) cs) ix) = Inr rh \<longrightarrow> compareRank r rh \<ge> 0)
          \<and> (\<exists>ix\<in>set combos7. rank5 (map ((!) cs) ix) = Inr r)"
    by auto
  have "combos7 \<noteq> []" by (simp add: combos7_eq)
  with b(2) obtain r where "b' = Some r" by auto
  with b(1,3) show ?thesis
    by (auto simp: bestOf7_def)
qed

lemma bestOf7_short:
  assumes "length cs < 7"
  shows "bestOf7 cs = Inl TypeError"
proof (cases "bestLoop cs combos7 None")
  case (Inl e)
  then show ?thesis
    by (simp add: bestOf7_def error_is_TypeError [of e])
next
  case (Inr b)
  from bestLoop_Inr_in_range [OF Inr] have "\<forall>ix\<in>set combos7. \<forall>i\<in>set ix. i < length cs" .
  moreover have "[0, 1, 2, 3, 6] \<in> set combos7"
    by (simp add: combos7_eq)
  ultimately have "6 < length cs"
    by force
  with assms show ?thesis by simp
qed

lemma seven_list:
  assumes "length cs = 7"
  obtains c0 c1 c2 c3 c4 c5 c6 where "cs = [c0, c1, c2, c3, c4, c5, c6]"
proof -
  from assms have "length cs = Suc (Suc (Suc (Suc (Suc (Suc (Suc 0))))))"
    by simp
  then show ?thesis
    using that by (auto simp: length_Suc_conv)
qed

lemma five_subseqs_combos7:
  assumes "length cs = 7"
  shows "filter (\<lambda>h. length h = 5) (subseqs cs) = map (map ((!) cs)) combos7"
proof -
  from assms obtain c0 c1 c2 c3 c4 c5 c6 where "cs = [c0, c1, c2, c3, c4, c5, c6]"
    by (rule seven_list)
  then show ?thesis
    by (simp add: combos7_eq Let_def)
qed

lemma bestOf7_seven_total:
  assumes "length cs = 7"
  shows "\<exists>r. bestOf7 cs = Inr r
           \<and> (\<forall>ix\<in>set combos7. \<exists>rh. rank5 (map ((!) cs) ix) = Inr rh \<and> compareRank r rh \<ge> 0)
           \<and> (\<exists>ix\<in>set combos7. rank5 (map ((!) cs) ix) = Inr r)"
proof -
  from bestOf7_seven [OF assms] obtain r where
    r: "bestOf7 cs = Inr r"
       "\<forall>ix\<in>set combos7. \<forall>rh. rank5 (map ((!) cs) ix) = Inr rh \<longrightarrow> compareRank r rh \<ge> 0"
       "\<exists>ix\<in>set combos7. rank5 (map ((!) cs) ix) = Inr r"
    by blast
  have "\<exists>rh. rank5 (map ((!) cs) ix) = Inr rh" if "ix \<in> set combos7" for ix
    using that combos7_shape rank5_five_returns [of "map ((!) cs) ix"] by simp
  with r show ?thesis by blast
qed

section \<open>Hands as sets of cards\<close>

lemma ranks_of_mset:
  assumes "mset h = mset h'"
  shows "ranks_of h = ranks_of h'"
proof -
  define f where "f = (\<lambda>x :: cardobj. - obj_rv x)"
  have key: "map f (sort_key f xs) = sort (map f xs)" for xs
    by (rule properties_for_sort [symmetric]) (simp_all add: sorted_sort_key)
  have "mset (map f (map cardToObj h)) = mset (map f (map cardToObj h'))"
    using assms by simp
  then have "sort (map f (map cardToObj h)) = sort (map f (map cardToObj h'))"
    by (metis properties_for_sort sorted_sort mset_sort)
  then have eq: "map f (sort_key f (map cardToObj h)) = map f (sort_key f (map cardToObj h'))"
    by (simp only: key)
  have conv: "map obj_rv xs = map uminus (map f xs)" for xs
    by (simp add: f_def comp_def)
  have "map obj_rv (sort_key f (map cardToObj h)) = map obj_rv (sort_key f (map cardToObj h'))"
    unfolding conv [of "sort_key f (map cardToObj h)"] conv [of "sort_key f (map cardToObj h')"]
    by (simp only: eq)
  then show ?thesis
    unfolding ranks_of_def f_def .
qed

lemma isFlush_set:
  assumes "set h = set h'"
  shows "isFlush (suits_of h) = isFlush (suits_of h')"
  using assms by (simp add: isFlush_def length_js_set set_suits_of)

lemma rank5_mset:
  assumes "mset h = mset h'"
  shows "rank5 h = rank5 h'"
proof -
  have r: "ranks_of h = ranks_of h'"
    using assms by (rule ranks_of_mset)
  have "set h = set h'"
    using assms by (rule mset_eq_setD)
  then have f: "isFlush (suits_of h) = isFlush (suits_of h')"
    by (rule isFlush_set)
  show ?thesis
    unfolding rank5_def Let_def r f ..
qed

lemma subset_as_subseq:
  assumes "distinct cs" "distinct h" "set h \<subseteq> set cs"
  shows "\<exists>h'\<in>set (subseqs cs). mset h' = mset h \<and> length h' = length h"
proof -
  from subset_subseqs [OF assms(3)] obtain h' where
    h': "h' \<in> set (subseqs cs)" "set h' = set h"
    by (metis imageE)
  from subseqs_distinctD [OF h'(1) assms(1)] have d: "distinct h'" .
  from d assms(2) h'(2) have m: "mset h' = mset h"
    by (simp add: set_eq_iff_mset_eq_distinct)
  then have "length h' = length h"
    by (metis size_mset)
  with h'(1) m show ?thesis by blast
qed

lemma subseq_is_subset:
  assumes "distinct cs" "h \<in> set (subseqs cs)"
  shows "distinct h \<and> set h \<subseteq> set cs"
proof -
  have "set h \<in> Pow (set cs)"
    using assms(2) subseqs_powset [of cs] by blast
  with subseqs_distinctD [OF assms(2,1)] show ?thesis by simp
qed

lemma seven_choose_five: "(7 :: nat) choose 5 = 21"
  by (simp add: numeral_eq_Suc)

section \<open>Winners and counters\<close>

lemma bestRank_mem: "bestRank r0 rest \<in> set (r0 # rest)"
proof -
  have "foldl (\<lambda>best x. if compareRank x best > 0 then x else best) b xs \<in> set (b # xs)" for b xs
    by (induction xs arbitrary: b) auto
  then show ?thesis
    by (simp only: bestRank_def)
qed

lemma winners_of_props:
  assumes "ranks \<noteq> []"
  shows "winners_of ranks \<noteq> []" "distinct (winners_of ranks)"
    "\<forall>i\<in>set (winners_of ranks). i < length ranks"
proof -
  from assms obtain r0 rest where r: "ranks = r0 # rest"
    by (cases ranks) auto
  define best where "best = bestRank r0 rest"
  have w: "winners_of ranks = filter (\<lambda>i. compareRank (ranks ! i) best = 0) [0 ..< length ranks]"
    unfolding winners_of_def r best_def by simp
  show "distinct (winners_of ranks)" "\<forall>i\<in>set (winners_of ranks). i < length ranks"
    unfolding w by simp_all
  have "best \<in> set ranks"
    unfolding best_def r by (rule bestRank_mem)
  then obtain i where i: "i < length ranks" "ranks ! i = best"
    by (auto simp: in_set_conv_nth)
  then have "i \<in> set (winners_of ranks)"
    unfolding w by (simp add: compareRank_refl)
  then show "winners_of ranks \<noteq> []"
    by auto
qed

lemma map_throw_length: "map_throw f xs = Inr ys \<Longrightarrow> length ys = length xs"
  by (induction xs arbitrary: ys) (auto split: sum.splits)

lemma dealHoles_length: "length (fst (dealHoles pns d ptr)) = length pns"
  by (induction pns d ptr rule: dealHoles.induct) (auto simp: Let_def split: prod.splits)

lemma length_holeNeeded [simp]: "length (holeNeeded players) = length players"
  by (simp add: holeNeeded_def)

lemma runTrial_winners:
  assumes "runTrial players board deckArr st = Inr (w, st')" "players \<noteq> []"
  shows "w \<noteq> [] \<and> distinct w \<and> (\<forall>i\<in>set w. i < length players)"
proof -
  obtain d st1 where sh: "shuffle deckArr st = (d, st1)"
    by (cases "shuffle deckArr st") auto
  obtain holes ptr where dh: "dealHoles (zip players (holeNeeded players)) d 0 = (holes, ptr)"
    by (cases "dealHoles (zip players (holeNeeded players)) d 0") auto
  have lh: "length holes = length players"
    using dealHoles_length [of "zip players (holeNeeded players)" d 0] dh by simp
  from assms(1) obtain ranks where
    mt: "map_throw (\<lambda>hole. bestOf7 (hole @ (board @ js_slice d ptr (ptr + (5 - int (length board))))))
           holes = Inr ranks"
    and w: "w = winners_of ranks"
    by (auto simp: runTrial_def Let_def sh dh split: sum.splits)
  from map_throw_length [OF mt] lh have lr: "length ranks = length players"
    by simp
  with assms(2) have "ranks \<noteq> []" by auto
  from winners_of_props [OF this] lr w show ?thesis
    by simp
qed

lemma trialLog_props:
  assumes "trialLog players board deckArr k st = Inr hist" "players \<noteq> []"
  shows "length hist = k
       \<and> (\<forall>w\<in>set hist. w \<noteq> [] \<and> distinct w \<and> (\<forall>i\<in>set w. i < length players))"
  using assms(1)
proof (induction k arbitrary: st hist)
  case 0
  then show ?case by simp
next
  case (Suc k)
  from Suc.prems obtain w st' rest where
    rt: "runTrial players board deckArr st = Inr (w, st')"
    and tl: "trialLog players board deckArr k st' = Inr rest"
    and lg: "hist = w # rest"
    by (auto split: sum.splits)
  from Suc.IH [OF tl] runTrial_winners [OF rt assms(2)] lg show ?case
    by simp
qed

lemma trialsLoop_log:
  assumes "trialsLoop players board deckArr k (acc, st) = Inr (acc', st')"
  shows "\<exists>hist. trialLog players board deckArr k st = Inr hist
           \<and> acc' = foldl (\<lambda>a w. tally w a) acc hist"
  using assms
proof (induction k arbitrary: acc st)
  case 0
  then show ?case by simp
next
  case (Suc k)
  from Suc.prems obtain w st1 where
    rt: "runTrial players board deckArr st = Inr (w, st1)"
    and lp: "trialsLoop players board deckArr k (tally w acc, st1) = Inr (acc', st')"
    by (auto split: sum.splits)
  from Suc.IH [OF lp] obtain hist where
    "trialLog players board deckArr k st1 = Inr hist" "acc' = foldl (\<lambda>a w. tally w a) (tally w acc) hist"
    by blast
  with rt show ?case by simp
qed

lemma sum_list_update_int:
  "i < length xs \<Longrightarrow> sum_list (xs[i := v]) = sum_list xs - xs ! i + (v :: int)"
  by (induction xs arbitrary: i) (auto split: nat.splits)

lemma length_incr [simp]: "length (incr xs i) = length xs"
  by (simp add: incr_def)

lemma sum_list_incr: "i < length xs \<Longrightarrow> sum_list (incr xs i) = sum_list xs + 1"
  by (simp add: incr_def sum_list_update_int)

lemma nth_incr:
  "j < length xs \<Longrightarrow> incr xs i ! j = xs ! j + (if j = i then 1 else 0)"
  by (simp add: incr_def nth_list_update)

lemma length_foldl_incr [simp]: "length (foldl incr t w) = length t"
  by (induction w arbitrary: t) simp_all

lemma nth_foldl_incr:
  "j < length t \<Longrightarrow> foldl incr t w ! j = t ! j + int (count_list w j)"
  by (induction w arbitrary: t) (simp_all add: nth_incr)

lemma count_list_distinct_if:
  "distinct w \<Longrightarrow> int (count_list w j) = (if j \<in> set w then 1 else 0)"
  by (simp add: count_list_distinct count_list_0_iff)

lemma tally_step:
  assumes "w \<noteq> []" "distinct w" "\<forall>i\<in>set w. i < n" "length a = n" "length t = n"
  shows "length (fst (tally w (a, t))) = n"
    "length (snd (tally w (a, t))) = n"
    "\<forall>i<n. fst (tally w (a, t)) ! i = a ! i + (if w = [i] then 1 else 0)"
    "\<forall>i<n. snd (tally w (a, t)) ! i = t ! i + (if 2 \<le> length w \<and> i \<in> set w then 1 else 0)"
    "sum_list (fst (tally w (a, t))) = sum_list a + (if length w = 1 then 1 else 0)"
proof -
  show "length (fst (tally w (a, t))) = n" "length (snd (tally w (a, t))) = n"
    using assms(4,5) by (simp_all add: tally_def)
  show "\<forall>i<n. fst (tally w (a, t)) ! i = a ! i + (if w = [i] then 1 else 0)"
  proof (cases "length w = 1")
    case True
    then obtain j where j: "w = [j]"
      by (cases w) auto
    then show ?thesis
      using assms(4) by (auto simp: tally_def nth_incr)
  next
    case False
    then have "w \<noteq> [i]" for i by auto
    with False show ?thesis
      by (simp add: tally_def)
  qed
  show "\<forall>i<n. snd (tally w (a, t)) ! i = t ! i + (if 2 \<le> length w \<and> i \<in> set w then 1 else 0)"
  proof (cases "length w = 1")
    case True
    then show ?thesis by (simp add: tally_def)
  next
    case False
    with assms(1) have two: "2 \<le> length w"
      by (cases w; cases "tl w") auto
    show ?thesis
      using False two assms(2,5)
      by (simp add: tally_def nth_foldl_incr count_list_distinct_if)
  qed
  show "sum_list (fst (tally w (a, t))) = sum_list a + (if length w = 1 then 1 else 0)"
  proof (cases "length w = 1")
    case True
    then obtain j where j: "w = [j]"
      by (cases w) auto
    with assms(3,4) have "j < length a" by simp
    with j show ?thesis
      by (simp add: tally_def sum_list_incr)
  next
    case False
    then show ?thesis by (simp add: tally_def)
  qed
qed

lemma tally_hist:
  assumes "\<forall>w\<in>set hist. w \<noteq> [] \<and> distinct w \<and> (\<forall>i\<in>set w. i < n)"
    "length a = n" "length t = n"
  shows "length (fst (foldl (\<lambda>acc w. tally w acc) (a, t) hist)) = n
       \<and> length (snd (foldl (\<lambda>acc w. tally w acc) (a, t) hist)) = n
       \<and> (\<forall>i<n. fst (foldl (\<lambda>acc w. tally w acc) (a, t) hist) ! i
                   = a ! i + int (length (filter (\<lambda>w. w = [i]) hist)))
       \<and> (\<forall>i<n. snd (foldl (\<lambda>acc w. tally w acc) (a, t) hist) ! i
                   = t ! i + int (length (filter (\<lambda>w. 2 \<le> length w \<and> i \<in> set w) hist)))
       \<and> sum_list (fst (foldl (\<lambda>acc w. tally w acc) (a, t) hist))
           = sum_list a + int (length (filter (\<lambda>w. length w = 1) hist))"
  using assms
proof (induction hist arbitrary: a t)
  case Nil
  then show ?case by simp
next
  case (Cons w hist)
  obtain a1 t1 where st: "tally w (a, t) = (a1, t1)"
    by (cases "tally w (a, t)") auto
  from Cons.prems have w: "w \<noteq> []" "distinct w" "\<forall>i\<in>set w. i < n"
    and rest: "\<forall>w\<in>set hist. w \<noteq> [] \<and> distinct w \<and> (\<forall>i\<in>set w. i < n)"
    by simp_all
  note step = tally_step [OF w Cons.prems(2,3), unfolded st fst_conv snd_conv]
  note ih = Cons.IH [OF rest step(1,2)]
  show ?case
    unfolding foldl_Cons st using ih step(3,4,5) by auto
qed

lemma split_by_winner_count:
  assumes "\<forall>w\<in>set hist. w \<noteq> []"
  shows "length (filter (\<lambda>w. length w = 1) hist) + length (filter (\<lambda>w. 2 \<le> length w) hist)
           = length hist"
  using assms
proof (induction hist)
  case Nil
  then show ?case by simp
next
  case (Cons w hist)
  then have "length w = 1 \<or> 2 \<le> length w"
    by (cases w; cases "tl w") auto
  with Cons show ?case by auto
qed

lemma sum_list_zeros [simp]: "sum_list (replicate n (0 :: int)) = 0"
  by (simp add: sum_list_replicate)

lemma simulateEquity_cases:
  assumes "simulateEquity players board dead trialsArg rngSeed = Inr res"
  obtains (short) "deckShort players board dead"
      "res = \<lparr> wins = replicate (length players) 0, ties = replicate (length players) 0,
               trials = 0 \<rparr>"
  | (run) w t st' where "\<not> deckShort players board dead"
      "trialsLoop players board (baseDeck players board dead) (trialsOrDefault trialsArg)
         ((replicate (length players) 0, replicate (length players) 0), seedState rngSeed)
         = Inr ((w, t), st')"
      "res = \<lparr> wins = w, ties = t, trials = trialsOrDefault trialsArg \<rparr>"
  using assms by (auto simp: simulateEquity_def Let_def split: if_splits sum.splits)

section \<open>The simulator returns on well-formed input\<close>

lemma js_slice_length:
  assumes "0 \<le> start" "start \<le> fin" "fin \<le> int (length xs)"
  shows "length (js_slice xs start fin) = nat (fin - start)"
  using assms by (simp add: js_slice_def Let_def min_def) arith

lemma length_shuffleLoop [simp]: "length (fst (shuffleLoop d i st)) = length d"
  by (induction d i st rule: shuffleLoop.induct) (simp_all add: Let_def)

lemma length_shuffle [simp]: "length (fst (shuffle deckArr st)) = length deckArr"
  by (simp add: shuffle_def)

lemma dealHoles_all_two:
  assumes "\<forall>pn\<in>set pns. snd pn = 2 - int (length (filterBoolean (cards (fst pn)))) \<and> 0 \<le> snd pn"
    and "0 \<le> ptr" and "ptr + sum_list (map snd pns) \<le> int (length d)"
  shows "(\<forall>h\<in>set (fst (dealHoles pns d ptr)). length h = 2)
       \<and> snd (dealHoles pns d ptr) = ptr + sum_list (map snd pns)"
  using assms
proof (induction pns arbitrary: ptr)
  case Nil
  then show ?case by simp
next
  case (Cons pn pns)
  obtain p need where pn: "pn = (p, need)"
    by (cases pn) auto
  from Cons.prems(1) pn have need: "need = 2 - int (length (filterBoolean (cards p)))" "0 \<le> need"
    by simp_all
  from Cons.prems(1) have
    rest: "\<forall>pn\<in>set pns. snd pn = 2 - int (length (filterBoolean (cards (fst pn)))) \<and> 0 \<le> snd pn"
    by (meson list.set_intros(2))
  from rest have nonneg: "0 \<le> sum_list (map snd pns)"
    by (intro sum_list_nonneg) auto
  from Cons.prems(3) pn have total: "ptr + need + sum_list (map snd pns) \<le> int (length d)"
    by simp
  have len: "length (js_slice d ptr (ptr + need)) = nat need"
    using js_slice_length [of ptr "ptr + need" d] Cons.prems(2) need(2) total nonneg by simp
  have two: "length (filterBoolean (cards p) @ js_slice d ptr (ptr + need)) = 2"
    using len need by simp
  have ptr': "0 \<le> ptr + need"
    using Cons.prems(2) need(2) by simp
  obtain holes q where dh: "dealHoles pns d (ptr + need) = (holes, q)"
    by (cases "dealHoles pns d (ptr + need)") auto
  from Cons.IH [OF rest ptr' total] have
    ih: "\<forall>h\<in>set holes. length h = 2" "q = ptr + need + sum_list (map snd pns)"
    unfolding dh by simp_all
  show ?case
    unfolding pn using ih two by (simp add: Let_def dh)
qed

lemma zip_map_same: "zip xs (map f xs) = map (\<lambda>x. (x, f x)) xs"
  by (induction xs) auto

lemma zip_holeNeeded:
  "\<forall>pn\<in>set (zip players (holeNeeded players)).
      snd pn = 2 - int (length (filterBoolean (cards (fst pn))))"
  by (auto simp: holeNeeded_def zip_map_same)

lemma map_snd_zip_holeNeeded: "map snd (zip players (holeNeeded players)) = holeNeeded players"
  by (simp add: holeNeeded_def zip_map_same comp_def)

lemma map_throw_all_Inr:
  "\<forall>x\<in>set xs. \<exists>y. f x = Inr y \<Longrightarrow> \<exists>ys. map_throw f xs = Inr ys"
  by (induction xs) auto

lemma bestOf7_returns: "length cs = 7 \<Longrightarrow> \<exists>hr. bestOf7 cs = Inr hr"
  using bestOf7_seven_total [of cs] by blast

lemma runTrial_returns:
  assumes known: "\<forall>p\<in>set players. length (filterBoolean (cards p)) \<le> 2"
    and board: "length board \<le> 5"
    and enough: "(5 - int (length board)) + sum_list (holeNeeded players) \<le> int (length deckArr)"
  shows "\<exists>w st'. runTrial players board deckArr st = Inr (w, st')"
proof -
  obtain d st1 where sh: "shuffle deckArr st = (d, st1)"
    by (cases "shuffle deckArr st") auto
  have ld: "length d = length deckArr"
    using length_shuffle [of deckArr st] sh by simp
  define pns where "pns = zip players (holeNeeded players)"
  obtain holes ptr where dh: "dealHoles pns d 0 = (holes, ptr)"
    by (cases "dealHoles pns d 0") auto
  have needs: "\<forall>pn\<in>set pns. snd pn = 2 - int (length (filterBoolean (cards (fst pn)))) \<and> 0 \<le> snd pn"
  proof
    fix pn assume mem: "pn \<in> set pns"
    then have eq: "snd pn = 2 - int (length (filterBoolean (cards (fst pn))))"
      using zip_holeNeeded [of players] unfolding pns_def by blast
    from mem have "fst pn \<in> set players"
      unfolding pns_def by (metis prod.collapse set_zip_leftD)
    with known have "length (filterBoolean (cards (fst pn))) \<le> 2" by blast
    with eq show "snd pn = 2 - int (length (filterBoolean (cards (fst pn)))) \<and> 0 \<le> snd pn"
      by simp
  qed
  have sm: "sum_list (map snd pns) = sum_list (holeNeeded players)"
    unfolding pns_def by (simp only: map_snd_zip_holeNeeded)
  have nb: "0 \<le> 5 - int (length board)"
    using board by simp
  have fits: "0 + sum_list (map snd pns) \<le> int (length d)"
    using enough nb unfolding sm ld by simp
  from dealHoles_all_two [OF needs _ fits] dh have
    two: "\<forall>h\<in>set holes. length h = 2" and ptr: "ptr = sum_list (holeNeeded players)"
    unfolding sm by simp_all
  from needs have "0 \<le> sum_list (map snd pns)"
    by (intro sum_list_nonneg) auto
  then have p0: "0 \<le> ptr"
    unfolding ptr sm .
  have "length (js_slice d ptr (ptr + (5 - int (length board)))) = nat (5 - int (length board))"
    using js_slice_length [of ptr "ptr + (5 - int (length board))" d] p0 nb enough
    unfolding ptr ld by simp
  then have five: "length (board @ js_slice d ptr (ptr + (5 - int (length board)))) = 5"
    using board by simp
  have "\<forall>hole\<in>set holes. \<exists>hr. bestOf7 (hole @ (board @ js_slice d ptr (ptr + (5 - int (length board))))) = Inr hr"
  proof
    fix hole assume "hole \<in> set holes"
    with two five have "length (hole @ (board @ js_slice d ptr (ptr + (5 - int (length board))))) = 7"
      by simp
    then show "\<exists>hr. bestOf7 (hole @ (board @ js_slice d ptr (ptr + (5 - int (length board))))) = Inr hr"
      by (rule bestOf7_returns)
  qed
  from map_throw_all_Inr [OF this] obtain ranks where
    "map_throw (\<lambda>hole. bestOf7 (hole @ (board @ js_slice d ptr (ptr + (5 - int (length board))))))
       holes = Inr ranks"
    by blast
  then show ?thesis
    using dh unfolding pns_def by (simp add: runTrial_def Let_def sh)
qed

lemma trialsLoop_returns:
  assumes "\<And>st. \<exists>w st'. runTrial players board deckArr st = Inr (w, st')"
  shows "\<exists>r. trialsLoop players board deckArr k acc = Inr r"
proof (induction k arbitrary: acc)
  case 0
  then show ?case by simp
next
  case (Suc k)
  from assms [of "snd acc"] obtain w st' where
    rt: "runTrial players board deckArr (snd acc) = Inr (w, st')"
    by blast
  from Suc [of "(tally w (fst acc), st')"] rt show ?case
    by simp
qed

lemma simulateEquity_returns:
  assumes "\<forall>p\<in>set players. length (filterBoolean (cards p)) \<le> 2" "length board \<le> 5"
  shows "\<exists>res. simulateEquity players board dead trialsArg rngSeed = Inr res
            \<and> trials res = (if deckShort players board dead then 0 else trialsOrDefault trialsArg)"
proof (cases "deckShort players board dead")
  case True
  then show ?thesis
    by (simp add: simulateEquity_def Let_def)
next
  case False
  then have enough: "(5 - int (length board)) + sum_list (holeNeeded players)
                       \<le> int (length (baseDeck players board dead))"
    by (simp add: deckShort_iff)
  have "\<exists>w st'. runTrial players board (baseDeck players board dead) st = Inr (w, st')" for st
    using assms enough by (rule runTrial_returns)
  from trialsLoop_returns [of players board "baseDeck players board dead", OF this]
  obtain r where "trialsLoop players board (baseDeck players board dead) (trialsOrDefault trialsArg)
         ((replicate (length players) 0, replicate (length players) 0), seedState rngSeed) = Inr r"
    by blast
  with False show ?thesis
    by (cases r) (auto simp: simulateEquity_def Let_def)
qed

section \<open>The simulations of the sweep\<close>

lemma filterBoolean_append: "filterBoolean (xs @ ys) = filterBoolean xs @ filterBoolean ys"
  by (simp add: filterBoolean_def)

lemma filterBoolean_map_Some [simp]: "filterBoolean (map Some cs) = cs"
  by (induction cs) (simp_all add: filterBoolean_def)

lemma filterBoolean_unknown [simp]: "filterBoolean (concat (replicate n [None, None])) = []"
  by (induction n) (simp_all add: filterBoolean_def)

lemma usedCards_simPlayers: "usedCards (simPlayers hc opp) [] [] = hc"
  by (simp add: usedCards_def simPlayers_def filterBoolean_append)

lemma length_makeDeck: "length makeDeck = 52"
  by (simp add: makeDeck_def RANKS_def SUITS_def)

lemma distinct_makeDeck: "distinct makeDeck"
  by (simp add: makeDeck_def RANKS_def SUITS_def)

lemma length_filter_removed:
  assumes "distinct xs"
  shows "length xs \<le> length (filter (\<lambda>c. c \<notin> set ys) xs) + length ys"
proof -
  have "distinct (filter (\<lambda>c. c \<in> set ys) xs)"
    using assms by simp
  then have "length (filter (\<lambda>c. c \<in> set ys) xs) = card (set (filter (\<lambda>c. c \<in> set ys) xs))"
    by (rule distinct_card [symmetric])
  also have "\<dots> \<le> card (set ys)"
    by (intro card_mono) auto
  also have "\<dots> \<le> length ys"
    by (rule card_length)
  finally have "length (filter (\<lambda>c. c \<in> set ys) xs) \<le> length ys" .
  moreover have "length (filter (\<lambda>c. c \<in> set ys) xs) + length (filter (\<lambda>c. c \<notin> set ys) xs) = length xs"
    by (rule sum_length_filter_compl)
  ultimately show ?thesis by simp
qed

lemma baseDeck_simPlayers:
  assumes "length hc = 2"
  shows "50 \<le> length (baseDeck (simPlayers hc opp) [] [])"
  using length_filter_removed [OF distinct_makeDeck, of hc] assms
  by (simp add: baseDeck_def usedCards_simPlayers length_makeDeck)

lemma holeNeeded_simPlayers:
  assumes "length hc = 2"
  shows "sum_list (holeNeeded (simPlayers hc opp)) = 2 * int opp"
  using assms
  by (simp add: holeNeeded_def simPlayers_def filterBoolean_def sum_list_replicate)

lemma simPlayers_enough:
  assumes "length hc = 2" "opp \<le> 8"
  shows "\<not> deckShort (simPlayers hc opp) [] []"
  using baseDeck_simPlayers [OF assms(1), of opp] holeNeeded_simPlayers [OF assms(1), of opp] assms(2)
  by (simp add: deckShort_iff)

lemma simPlayers_known:
  assumes "length hc = 2"
  shows "\<forall>p\<in>set (simPlayers hc opp). length (filterBoolean (cards p)) \<le> 2"
  using assms by (auto simp: simPlayers_def filterBoolean_def)

lemma count_positive_foldl:
  "foldl (\<lambda>a b. a + (if b > 0 then 1 else 0)) acc ts
     = acc + int (length (filter (\<lambda>b. b > (0 :: int)) ts))"
  by (induction ts arbitrary: acc) simp_all

lemma tieBuckets_eq:
  "tieBuckets sim = max 1 (int (length (filter (\<lambda>b. b > 0) (ties sim))))"
  by (simp add: tieBuckets_def count_positive_foldl)

lemma curvePoint_returns:
  assumes "length hc = 2" "opp \<le> 8"
  shows "\<exists>sim. simulateEquity (simPlayers hc opp) [] [] (Some 2500) None = Inr sim
           \<and> trials sim = 2500
           \<and> curvePoint hc opp
               = Inr (opp,
                   js_mul
                     (js_div
                        (js_add (of_int (wins sim ! 0))
                           (js_div (of_int (ties sim ! 0))
                              (of_int (max 1 (int (length (filter (\<lambda>b. b > 0) (ties sim))))))))
                        2500)
                     100)"
proof -
  from simulateEquity_returns [OF simPlayers_known [OF assms(1)], of "[]" opp "[]" "Some 2500" None]
    simPlayers_enough [OF assms]
  obtain sim where sim: "simulateEquity (simPlayers hc opp) [] [] (Some 2500) None = Inr sim"
    and tr: "trials sim = 2500"
    by (auto simp: trialsOrDefault_def)
  have "curvePoint hc opp = Inr (opp, equityOf sim)"
    by (simp add: curvePoint_def sim)
  then show ?thesis
    using sim tr by (simp add: equityOf_def tieBuckets_eq)
qed

lemma map_throw_Inr_map:
  "\<forall>x\<in>set xs. f x = Inr (g x) \<Longrightarrow> map_throw f xs = Inr (map g xs)"
  by (induction xs) simp_all

lemma upt_1_9: "[1 ..< 9] = map Suc [0 ..< 8]"
  by (simp add: map_Suc_upt)

section \<open>Rounding\<close>

text \<open>
  \<open>fl64\<close> returns a number within half a unit in the last place of its argument: the
  relative error of one operation is at most \<open>2^-53\<close>.  The four roundings of the equity
  expression move it by at most \<open>2^-50\<close> of its exact value.
\<close>

lemma bitLength_bounds:
  "0 < n \<Longrightarrow> 0 < bitLength n \<and> 2 ^ (bitLength n - 1) \<le> n \<and> n < 2 ^ bitLength n"
proof (induction n rule: bitLength.induct)
  case (1 n)
  show ?case
  proof (cases "n = 1")
    case True
    have "bitLength 1 = Suc (bitLength 0)"
      by (subst bitLength.simps) simp
    also have "bitLength 0 = 0"
      by (subst bitLength.simps) simp
    finally show ?thesis
      using True by simp
  next
    case False
    with "1.prems" have h: "0 < n div 2"
      by simp
    define k where "k = bitLength (n div 2)"
    from "1.IH" h "1.prems" have ih: "0 < k" "2 ^ (k - 1) \<le> n div 2" "n div 2 < 2 ^ k"
      unfolding k_def by simp_all
    have bl: "bitLength n = Suc k"
      using "1.prems" unfolding k_def by (subst bitLength.simps) simp
    from ih(1) have pk: "(2 :: int) ^ k = 2 * 2 ^ (k - 1)"
      by (cases k) simp_all
    have lo: "2 ^ k \<le> n"
      using ih(2) unfolding pk by linarith
    have hi: "n < 2 * 2 ^ k"
      using ih(3) by linarith
    show ?thesis
      unfolding bl using lo hi by simp
  qed
qed

lemma pow2_powi: "pow2 e = power_int 2 e"
  by (simp add: pow2_def power_int_def inverse_eq_divide power_one_over)

lemma pow2_pos [simp]: "0 < pow2 e"
  by (simp add: pow2_def)

lemma pow2_diff_nat: "pow2 (int m - int n) = 2 ^ m / 2 ^ n"
  by (simp add: pow2_powi power_int_diff)

lemma pow2_add: "pow2 (a + b) = pow2 a * pow2 b"
  by (simp add: pow2_powi power_int_add)

lemma pow2_1: "pow2 1 = 2" and pow2_m1: "pow2 (- 1) = 1 / 2"
  by (simp_all add: pow2_def)

lemma pow2_53: "pow2 (e - 53) = pow2 e / 2 ^ 53" and pow2_52: "pow2 (e - 52) = pow2 e / 2 ^ 52"
  using pow2_diff_nat [of 0 53] pow2_add [of e "- 53"] pow2_diff_nat [of 0 52] pow2_add [of e "- 52"]
  by simp_all

lemma binade_bounds:
  assumes "0 < x"
  shows "pow2 (binade x) \<le> x \<and> x < pow2 (binade x + 1)"
proof -
  obtain a b where q: "quotient_of x = (a, b)"
    by (cases "quotient_of x") auto
  from quotient_of_denom_pos [OF q] have b: "0 < b" .
  from quotient_of_div [OF q] have x: "x = of_int a / of_int b" .
  from assms b have a: "0 < a"
    unfolding x by (simp add: zero_less_divide_iff)
  define la where "la = bitLength a"
  define lb where "lb = bitLength b"
  from bitLength_bounds [OF a] have ba: "0 < la" "2 ^ (la - 1) \<le> a" "a < 2 ^ la"
    unfolding la_def by simp_all
  from bitLength_bounds [OF b] have bb: "0 < lb" "2 ^ (lb - 1) \<le> b" "b < 2 ^ lb"
    unfolding lb_def by simp_all
  define e0 where "e0 = int la - int lb"
  have ra: "(2 :: rat) ^ (la - 1) \<le> of_int a" "of_int a < (2 :: rat) ^ la"
    using ba(2,3) by (metis of_int_le_iff of_int_numeral of_int_power, metis of_int_less_iff of_int_numeral of_int_power)
  have rb: "(2 :: rat) ^ (lb - 1) \<le> of_int b" "of_int b < (2 :: rat) ^ lb"
    using bb(2,3) by (metis of_int_le_iff of_int_numeral of_int_power, metis of_int_less_iff of_int_numeral of_int_power)
  have bpos: "(0 :: rat) < of_int b"
    using b by simp
  have la2: "(2 :: rat) ^ la = 2 * 2 ^ (la - 1)" and lb2: "(2 :: rat) ^ lb = 2 * 2 ^ (lb - 1)"
    using ba(1) bb(1) by (cases la, simp_all) (cases lb, simp_all)
  have up: "x < pow2 (e0 + 1)"
  proof -
    have "x < 2 ^ la / of_int b"
      unfolding x using ra(2) bpos by (simp add: divide_strict_right_mono)
    also have "\<dots> \<le> 2 ^ la / 2 ^ (lb - 1)"
      using rb(1) by (simp add: frac_le)
    also have "\<dots> = pow2 (e0 + 1)"
      unfolding pow2_add pow2_1 e0_def pow2_diff_nat lb2 by simp
    finally show ?thesis .
  qed
  have down: "pow2 (e0 - 1) \<le> x"
  proof -
    have "pow2 (e0 - 1) = 2 ^ (la - 1) / 2 ^ lb"
      using pow2_add [of e0 "- 1"] unfolding pow2_m1 e0_def pow2_diff_nat la2 by simp
    also have "\<dots> \<le> of_int a / 2 ^ lb"
      using ra(1) by (simp add: divide_right_mono)
    also have "\<dots> \<le> of_int a / of_int b"
      using rb(2) a bpos by (simp add: frac_le)
    finally show ?thesis unfolding x .
  qed
  have bin: "binade x = (if pow2 e0 \<le> x then e0 else e0 - 1)"
    by (simp add: binade_def q e0_def la_def lb_def)
  show ?thesis
  proof (cases "pow2 e0 \<le> x")
    case True
    with up bin show ?thesis by simp
  next
    case False
    with down bin show ?thesis by simp
  qed
qed

lemma roundHalfEven_near: "\<bar>of_int (roundHalfEven q) - q\<bar> \<le> 1 / 2"
proof -
  have "of_int \<lfloor>q\<rfloor> \<le> q" "q < of_int \<lfloor>q\<rfloor> + 1"
    by linarith+
  then show ?thesis
    by (auto simp: roundHalfEven_def Let_def abs_le_iff)
qed

lemma fl64_near:
  assumes "0 < x"
  shows "\<bar>fl64 x - x\<bar> \<le> x * unitRoundoff"
proof -
  define ulp where "ulp = pow2 (binade x - 52)"
  have up: "0 < ulp"
    by (simp add: ulp_def)
  define m where "m = roundHalfEven (x / ulp)"
  have f: "fl64 x = of_int m * ulp"
    using assms by (simp add: fl64_def Let_def ulp_def m_def)
  have "fl64 x - x = (of_int m - x / ulp) * ulp"
    using up unfolding f by (simp add: field_simps)
  then have "\<bar>fl64 x - x\<bar> = \<bar>of_int m - x / ulp\<bar> * ulp"
    using up by (simp add: abs_mult)
  also have "\<dots> \<le> 1 / 2 * ulp"
    using roundHalfEven_near [of "x / ulp"] up unfolding m_def
    by (intro mult_right_mono) simp_all
  also have "\<dots> = pow2 (binade x) * unitRoundoff"
    unfolding ulp_def pow2_52 unitRoundoff_def by simp
  also have "\<dots> \<le> x * unitRoundoff"
    using binade_bounds [OF assms] by (intro mult_right_mono) (simp_all add: unitRoundoff_def)
  finally show ?thesis .
qed

lemma fl64_between:
  assumes "0 \<le> lo" "lo \<le> x" "x \<le> hi"
  shows "lo * (1 - unitRoundoff) \<le> fl64 x \<and> fl64 x \<le> hi * (1 + unitRoundoff)"
proof (cases "x = 0")
  case True
  with assms have "lo = 0" "0 \<le> hi" by simp_all
  with True show ?thesis
    by (simp add: fl64_def unitRoundoff_def)
next
  case False
  with assms have pos: "0 < x" by simp
  have u: "0 \<le> 1 - unitRoundoff" "0 \<le> 1 + unitRoundoff"
    by (simp_all add: unitRoundoff_def)
  from fl64_near [OF pos] have "x - x * unitRoundoff \<le> fl64 x" "fl64 x \<le> x + x * unitRoundoff"
    by linarith+
  then have n: "x * (1 - unitRoundoff) \<le> fl64 x" "fl64 x \<le> x * (1 + unitRoundoff)"
    by (simp_all add: algebra_simps)
  have "lo * (1 - unitRoundoff) \<le> x * (1 - unitRoundoff)"
    using assms(2) u(1) by (rule mult_right_mono)
  moreover have "x * (1 + unitRoundoff) \<le> hi * (1 + unitRoundoff)"
    using assms(3) u(2) by (rule mult_right_mono)
  ultimately show ?thesis
    using n by linarith
qed

lemma equityOf_accuracy:
  assumes t: "trials sim \<noteq> 0" and w: "0 \<le> wins sim ! 0" and ti: "0 \<le> ties sim ! 0"
  shows "\<bar>equityOf sim - exactEquity sim\<bar> \<le> exactEquity sim / 2 ^ 50"
proof -
  define u where "u = unitRoundoff"
  define W :: rat where "W = of_int (wins sim ! 0)"
  define T :: rat where "T = of_int (ties sim ! 0) / of_int (tieBuckets sim)"
  define N :: rat where "N = of_nat (trials sim)"
  have u: "0 \<le> 1 - u" "0 \<le> 1 + u" "0 \<le> u"
    by (simp_all add: u_def unitRoundoff_def)
  have W: "0 \<le> W" using w by (simp add: W_def)
  have tb: "1 \<le> tieBuckets sim" by (simp add: tieBuckets_def)
  have T: "0 \<le> T" using ti tb by (simp add: T_def)
  have N: "0 < N" using t by (simp add: N_def)
  define a where "a = js_div (of_int (ties sim ! 0)) (of_int (tieBuckets sim))"
  define b where "b = js_add W a"
  define c where "c = js_div b N"
  define d where "d = js_mul c 100"
  have eq: "equityOf sim = d"
    using t by (simp add: equityOf_def d_def c_def b_def a_def W_def N_def)
  have ex: "exactEquity sim = (W + T) / N * 100"
    by (simp add: exactEquity_def W_def T_def N_def)
  have a: "T * (1 - u) \<le> a" "a \<le> T * (1 + u)"
    using fl64_between [of T T T] T by (simp_all add: a_def js_div_def T_def u_def)
  have a0: "0 \<le> T * (1 - u)" using T u by simp
  have s: "(W + T) * (1 - u) \<le> W + a" "W + a \<le> (W + T) * (1 + u)"
  proof -
    have "W * (1 - u) \<le> W" "W \<le> W * (1 + u)"
      using W u(3) by (simp_all add: algebra_simps mult_nonneg_nonneg)
    then show "(W + T) * (1 - u) \<le> W + a" "W + a \<le> (W + T) * (1 + u)"
      using a by (simp_all add: distrib_right)
  qed
  have s0: "0 \<le> (W + T) * (1 - u)" using W T u by simp
  have b: "(W + T) * (1 - u) * (1 - u) \<le> b" "b \<le> (W + T) * (1 + u) * (1 + u)"
    using fl64_between [OF s0 s] by (simp_all add: b_def js_add_def u_def)
  have b0: "0 \<le> (W + T) * (1 - u) * (1 - u)" using s0 u by simp
  have q: "(W + T) * (1 - u) * (1 - u) / N \<le> b / N" "b / N \<le> (W + T) * (1 + u) * (1 + u) / N"
    using b N by (simp_all add: divide_right_mono)
  have q0: "0 \<le> (W + T) * (1 - u) * (1 - u) / N" using b0 N by simp
  have c: "(W + T) * (1 - u) * (1 - u) / N * (1 - u) \<le> c" "c \<le> (W + T) * (1 + u) * (1 + u) / N * (1 + u)"
    using fl64_between [OF q0 q] by (simp_all add: c_def js_div_def u_def)
  have c0: "0 \<le> (W + T) * (1 - u) * (1 - u) / N * (1 - u)" using q0 u(1) by (rule mult_nonneg_nonneg)
  have p: "(W + T) * (1 - u) * (1 - u) / N * (1 - u) * 100 \<le> c * 100"
      "c * 100 \<le> (W + T) * (1 + u) * (1 + u) / N * (1 + u) * 100"
    using c by (simp_all only: mult_right_mono zero_le_numeral)
  have p0: "0 \<le> (W + T) * (1 - u) * (1 - u) / N * (1 - u) * 100" using c0 by (rule mult_nonneg_nonneg) simp
  have d: "(W + T) * (1 - u) * (1 - u) / N * (1 - u) * 100 * (1 - u) \<le> d"
      "d \<le> (W + T) * (1 + u) * (1 + u) / N * (1 + u) * 100 * (1 + u)"
    using fl64_between [OF p0 p] by (simp_all add: d_def js_mul_def u_def)
  define E where "E = (W + T) / N * 100"
  have E0: "0 \<le> E" using W T N by (simp add: E_def)
  have lo: "(W + T) * (1 - u) * (1 - u) / N * (1 - u) * 100 * (1 - u) = E * ((1 - u) ^ 4)"
    using N by (simp add: E_def power4_eq_xxxx field_simps)
  have hi: "(W + T) * (1 + u) * (1 + u) / N * (1 + u) * 100 * (1 + u) = E * ((1 + u) ^ 4)"
    using N by (simp add: E_def power4_eq_xxxx field_simps)
  have k: "1 - 1 / 2 ^ 50 \<le> (1 - u) ^ 4" "(1 + u) ^ 4 \<le> 1 + 1 / 2 ^ 50"
    unfolding u_def unitRoundoff_def by (simp_all add: power_divide)
  have "E * (1 - 1 / 2 ^ 50) \<le> E * ((1 - u) ^ 4)" "E * ((1 + u) ^ 4) \<le> E * (1 + 1 / 2 ^ 50)"
    using k E0 by (simp_all only: mult_left_mono)
  then have "E * (1 - 1 / 2 ^ 50) \<le> d" "d \<le> E * (1 + 1 / 2 ^ 50)"
    using d unfolding lo hi by linarith+
  then have "E - E / 2 ^ 50 \<le> d" "d \<le> E + E / 2 ^ 50"
    by (simp_all add: algebra_simps)
  then have "\<bar>d - E\<bar> \<le> E / 2 ^ 50"
    by linarith
  then show ?thesis
    by (simp only: eq ex E_def)
qed


lemma simulateEquity_counters_nonneg:
  assumes "players \<noteq> []"
    and "simulateEquity players board dead trialsArg rngSeed = Inr res"
  shows "0 \<le> wins res ! 0 \<and> 0 \<le> ties res ! 0"
  using assms(2)
proof (cases rule: simulateEquity_cases)
  case short
  with assms(1) show ?thesis
    by simp
next
  case (run w t st')
  define n where "n = length players"
  from trialsLoop_log [OF run(2)] obtain hist where
    h: "trialLog players board (baseDeck players board dead) (trialsOrDefault trialsArg)
          (seedState rngSeed) = Inr hist"
    and acc: "(w, t) = foldl (\<lambda>a w. tally w a) (replicate (length players) 0, replicate (length players) 0) hist"
    by blast
  from trialLog_props [OF h assms(1)] have
    ws: "\<forall>w\<in>set hist. w \<noteq> [] \<and> distinct w \<and> (\<forall>i\<in>set w. i < n)"
    unfolding n_def by simp
  have wt: "w = fst (foldl (\<lambda>a w. tally w a) (replicate n 0, replicate n 0) hist)"
           "t = snd (foldl (\<lambda>a w. tally w a) (replicate n 0, replicate n 0) hist)"
    unfolding n_def acc [symmetric] by simp_all
  from tally_hist [OF ws, of "replicate n 0" "replicate n 0"] have
    c: "\<forall>i<n. w ! i = int (length (filter (\<lambda>w. w = [i]) hist))"
       "\<forall>i<n. t ! i = int (length (filter (\<lambda>w. 2 \<le> length w \<and> i \<in> set w) hist))"
    unfolding wt [symmetric] by simp_all
  from assms(1) have "0 < n"
    by (simp add: n_def)
  with c have "0 \<le> w ! 0" "0 \<le> t ! 0"
    by simp_all
  then show ?thesis
    unfolding run(3) by simp
qed

lemma simulateEquity_equity_accuracy:
  assumes "players \<noteq> []"
    and "simulateEquity players board dead trialsArg rngSeed = Inr res"
    and "trials res \<noteq> 0"
  shows "\<bar>equityOf res - exactEquity res\<bar> \<le> exactEquity res / 2 ^ 50"
  using equityOf_accuracy [OF assms(3)] simulateEquity_counters_nonneg [OF assms(1,2)]
  by simp

section \<open>The evaluators\<close>

text \<open>
  C2.  The claim: \<^verbatim>\<open>rank5\<close> fails on fewer or more than five cards and on duplicate
  cards.  It does not: a single card, six cards and five copies of one card are all ranked.
\<close>

theorem rank5_accepts_invalid_input:
  "rank5 [(RA, Ss)] = Inr [5, 12]
   \<and> rank5 [(RA, Ss), (R2, Sh), (R3, Sd), (R4, Sc), (R5, Sc), (R6, Sc)] = Inr [4, 4]
   \<and> rank5 [(RA, Ss), (RA, Ss), (RA, Ss), (RA, Ss), (RA, Ss)] = Inr [5, 12, 12, 12, 12, 12]"
  by code_simp

text \<open>
  C2, as the code has it.  \<^verbatim>\<open>rank5\<close> checks neither the number of cards nor their
  distinctness.  Every input of exactly five cards is ranked, and the only inputs on which
  it throws are the empty array (\<^verbatim>\<open>counts[0]\<close> is undefined) and four cards of one rank
  (\<^verbatim>\<open>counts[1]\<close> is undefined).
\<close>

theorem rank5_no_validation:
  "(length cs = 5 \<longrightarrow> (\<exists>hr. rank5 cs = Inr hr))
   \<and> ((\<exists>e. rank5 cs = Inl e)
        \<longleftrightarrow> cs = [] \<or> (length cs = 4 \<and> (\<forall>c\<in>set cs. fst c = fst (hd cs))))"
  using rank5_five_returns [of cs] rank5_throws_only [of cs] rank5_four_of_one_rank [of cs]
    rank5_Nil by blast

theorem rank5_no_validation_witness:
  "length [(RA, Ss), (RA, Sh), (RQ, Ss), (RQ, Sd), (RT, Ss)] = 5
   \<and> (\<exists>hr. rank5 [(RA, Ss), (RA, Sh), (RQ, Ss), (RQ, Sd), (RT, Ss)] = Inr hr)
   \<and> length [(RA, Ss), (RA, Sh), (RA, Sd), (RA, Sc)] = 4
   \<and> map fst [(RA, Ss), (RA, Sh), (RA, Sd), (RA, Sc)] = [RA, RA, RA, RA]
   \<and> (\<exists>e. rank5 [(RA, Ss), (RA, Sh), (RA, Sd), (RA, Sc)] = Inl e)"
proof -
  have five: "length [(RA, Ss), (RA, Sh), (RQ, Ss), (RQ, Sd), (RT, Ss)] = 5"
    by simp
  from rank5_no_validation [of "[(RA, Ss), (RA, Sh), (RQ, Ss), (RQ, Sd), (RT, Ss)]"] five
  have a: "\<exists>hr. rank5 [(RA, Ss), (RA, Sh), (RQ, Ss), (RQ, Sd), (RT, Ss)] = Inr hr"
    by blast
  have b: "length [(RA, Ss), (RA, Sh), (RA, Sd), (RA, Sc)] = 4
     \<and> (\<forall>c\<in>set [(RA, Ss), (RA, Sh), (RA, Sd), (RA, Sc)].
         fst c = fst (hd [(RA, Ss), (RA, Sh), (RA, Sd), (RA, Sc)]))"
    by simp
  from rank5_no_validation [of "[(RA, Ss), (RA, Sh), (RA, Sd), (RA, Sc)]"] b
  have c: "\<exists>e. rank5 [(RA, Ss), (RA, Sh), (RA, Sd), (RA, Sc)] = Inl e"
    by blast
  from five a c show ?thesis by simp
qed

text \<open>
  C3.  The claim: \<^verbatim>\<open>bestOf7\<close> is correct on five, six or seven cards.  On five and on six
  cards it throws: the loops always run over seven positions and read a card that is not
  there.
\<close>

theorem bestOf7_throws_on_five_and_six:
  "bestOf7 [(RA, Ss), (R2, Sh), (R3, Sd), (R4, Sc), (R5, Sc)] = Inl TypeError
   \<and> bestOf7 [(RA, Ss), (R2, Sh), (R3, Sd), (R4, Sc), (R5, Sc), (R6, Sc)] = Inl TypeError"
  by code_simp

text \<open>
  C3, as the code has it.  \<^verbatim>\<open>bestOf7\<close> enumerates the 21 index tuples of seven positions
  whatever the length of its argument.  It throws a \<^verbatim>\<open>TypeError\<close> on every input of fewer
  than seven cards (five and six included), and on exactly seven cards it returns a rank
  that is attained by one of the enumerated hands and is not below any of them.
\<close>

theorem bestOf7_only_seven:
  "(length cs < 7 \<longrightarrow> bestOf7 cs = Inl TypeError)
   \<and> (length cs = 7 \<longrightarrow>
        (\<exists>r. bestOf7 cs = Inr r
           \<and> (\<forall>ix\<in>set combos7. \<exists>rh. rank5 (map ((!) cs) ix) = Inr rh \<and> compareRank r rh \<ge> 0)
           \<and> (\<exists>ix\<in>set combos7. rank5 (map ((!) cs) ix) = Inr r)))"
  using bestOf7_short [of cs] bestOf7_seven_total [of cs] by blast

theorem bestOf7_only_seven_witness:
  "length fiveCards < 7 \<and> bestOf7 fiveCards = Inl TypeError
   \<and> length sevenCards = 7
   \<and> (\<exists>r. bestOf7 sevenCards = Inr r
         \<and> (\<forall>ix\<in>set combos7. \<exists>rh. rank5 (map ((!) sevenCards) ix) = Inr rh
                \<and> compareRank r rh \<ge> 0)
         \<and> (\<exists>ix\<in>set combos7. rank5 (map ((!) sevenCards) ix) = Inr r))"
proof -
  have five: "length fiveCards < 7"
    by (simp add: fiveCards_def)
  have seven: "length sevenCards = 7"
    by (simp add: sevenCards_def)
  from bestOf7_only_seven [of fiveCards] five
  have a: "bestOf7 fiveCards = Inl TypeError"
    by blast
  from bestOf7_only_seven [of sevenCards] seven
  have b: "\<exists>r. bestOf7 sevenCards = Inr r
         \<and> (\<forall>ix\<in>set combos7. \<exists>rh. rank5 (map ((!) sevenCards) ix) = Inr rh
                \<and> compareRank r rh \<ge> 0)
         \<and> (\<exists>ix\<in>set combos7. rank5 (map ((!) sevenCards) ix) = Inr r)"
    by blast
  from five a seven b show ?thesis
    by (intro conjI)
qed

text \<open>
  C4.  On seven distinct cards \<^verbatim>\<open>bestOf7\<close> returns a rank that compares greater than or
  equal to the rank of every five-card subset, whatever the order its cards are listed in,
  and that is the rank of one of them: the maximum under \<^verbatim>\<open>compareRank\<close>.  There are
  \<open>C(7,5) = 21\<close> such subsets.
\<close>

theorem bestOf7_is_maximum:
  assumes "length cs = 7" and "distinct cs"
  shows "\<exists>r. bestOf7 cs = Inr r
           \<and> card {H. H \<subseteq> set cs \<and> card H = 5} = 21
           \<and> (\<forall>h. length h = 5 \<and> distinct h \<and> set h \<subseteq> set cs
                 \<longrightarrow> (\<exists>rh. rank5 h = Inr rh \<and> compareRank r rh \<ge> 0))
           \<and> (\<exists>h. length h = 5 \<and> distinct h \<and> set h \<subseteq> set cs \<and> rank5 h = Inr r)"
proof -
  have five: "filter (\<lambda>h. length h = 5) (subseqs cs) = map (map ((!) cs)) combos7"
    using assms(1) by (rule five_subseqs_combos7)
  have mem: "h \<in> set (subseqs cs) \<and> length h = 5 \<longleftrightarrow> (\<exists>ix\<in>set combos7. h = map ((!) cs) ix)" for h
  proof -
    have "h \<in> set (subseqs cs) \<and> length h = 5 \<longleftrightarrow> h \<in> set (filter (\<lambda>h. length h = 5) (subseqs cs))"
      by simp
    also have "\<dots> \<longleftrightarrow> h \<in> set (map (map ((!) cs)) combos7)"
      by (simp only: five)
    also have "\<dots> \<longleftrightarrow> (\<exists>ix\<in>set combos7. h = map ((!) cs) ix)"
      by auto
    finally show ?thesis .
  qed
  from bestOf7_seven_total [OF assms(1)] obtain r where
    r: "bestOf7 cs = Inr r"
       "\<forall>ix\<in>set combos7. \<exists>rh. rank5 (map ((!) cs) ix) = Inr rh \<and> compareRank r rh \<ge> 0"
       "\<exists>ix\<in>set combos7. rank5 (map ((!) cs) ix) = Inr r"
    by blast
  have n: "card {H. H \<subseteq> set cs \<and> card H = 5} = 21"
  proof -
    have "card (set cs) = 7"
      using assms by (simp add: distinct_card)
    then show ?thesis
      using n_subsets [of "set cs" 5] by (simp add: seven_choose_five)
  qed
  have all: "\<forall>h. length h = 5 \<and> distinct h \<and> set h \<subseteq> set cs
                 \<longrightarrow> (\<exists>rh. rank5 h = Inr rh \<and> compareRank r rh \<ge> 0)"
  proof (intro allI impI)
    fix h assume h: "length h = 5 \<and> distinct h \<and> set h \<subseteq> set cs"
    with subset_as_subseq [OF assms(2), of h] obtain h' where
      h': "h' \<in> set (subseqs cs)" "mset h' = mset h" "length h' = 5"
      by auto
    from h'(1,3) mem [of h'] obtain ix where "ix \<in> set combos7" "h' = map ((!) cs) ix"
      by blast
    with r(2) obtain rh where "rank5 h' = Inr rh" "compareRank r rh \<ge> 0"
      by blast
    with rank5_mset [OF h'(2)] show "\<exists>rh. rank5 h = Inr rh \<and> compareRank r rh \<ge> 0"
      by metis
  qed
  have ex: "\<exists>h. length h = 5 \<and> distinct h \<and> set h \<subseteq> set cs \<and> rank5 h = Inr r"
  proof -
    from r(3) obtain ix where ix: "ix \<in> set combos7" "rank5 (map ((!) cs) ix) = Inr r"
      by blast
    from ix(1) mem [of "map ((!) cs) ix"]
    have "map ((!) cs) ix \<in> set (subseqs cs)" "length (map ((!) cs) ix) = 5"
      by blast+
    with subseq_is_subset [OF assms(2), of "map ((!) cs) ix"] ix(2) show ?thesis
      by blast
  qed
  from r(1) n all ex show ?thesis by blast
qed

theorem bestOf7_is_maximum_witness:
  "length sevenCards = 7 \<and> distinct sevenCards
   \<and> length fiveCards = 5 \<and> distinct fiveCards \<and> set fiveCards \<subseteq> set sevenCards
   \<and> (\<exists>r rh. bestOf7 sevenCards = Inr r \<and> rank5 fiveCards = Inr rh \<and> compareRank r rh \<ge> 0)"
proof -
  have seven: "length sevenCards = 7" and d: "distinct sevenCards"
    by (simp_all add: sevenCards_def)
  have five: "length fiveCards = 5 \<and> distinct fiveCards \<and> set fiveCards \<subseteq> set sevenCards"
    by (simp add: fiveCards_def sevenCards_def)
  from bestOf7_is_maximum [OF seven d] five
  have "\<exists>r rh. bestOf7 sevenCards = Inr r \<and> rank5 fiveCards = Inr rh \<and> compareRank r rh \<ge> 0"
    by blast
  with seven d five show ?thesis
    by blast
qed

text \<open>
  C8.  Straight detection of \<^verbatim>\<open>rank5\<close> on five cards.  When the rank values present
  are five consecutive values \<open>h-4 \<dots> h\<close>, the hand is ranked as a straight with high
  value \<open>h\<close>; when they are those of A-2-3-4-5 it is ranked as a straight with high value
  3, the value of rank "5"; in both cases the category is 8 (straight flush) when all five
  cards share a suit and 4 otherwise.  In every other case the category is neither 4 nor 8.
\<close>

theorem rank5_straight_detection:
  assumes "length cs = 5"
  shows "(RANK_TO_VAL ` fst ` set cs = {h - 4 .. h}
            \<longrightarrow> rank5 cs = Inr [if (\<forall>c\<in>set cs. snd c = snd (hd cs)) then 8 else 4, h])
       \<and> (RANK_TO_VAL ` fst ` set cs = {0, 1, 2, 3, 12}
            \<longrightarrow> rank5 cs = Inr [if (\<forall>c\<in>set cs. snd c = snd (hd cs)) then 8 else 4, 3])
       \<and> ((\<forall>k. RANK_TO_VAL ` fst ` set cs \<noteq> {k - 4 .. k})
              \<and> RANK_TO_VAL ` fst ` set cs \<noteq> {0, 1, 2, 3, 12}
            \<longrightarrow> (\<exists>hr. rank5 cs = Inr hr \<and> hd hr \<noteq> 4 \<and> hd hr \<noteq> 8))"
proof (intro conjI impI)
  from assms have ne: "cs \<noteq> []" by auto
  note fl = isFlush_iff [OF ne]
  {
    assume run: "RANK_TO_VAL ` fst ` set cs = {h - 4 .. h}"
    then have s: "set (ranks_of cs) = {h - 4 .. h}"
      by (simp add: set_ranks_of)
    have sh: "straightHigh (ranks_of cs) = h"
      using s by (rule straightHigh_run)
    have "h - 4 \<in> set (ranks_of cs)"
      unfolding s by simp
    then obtain x where "h - 4 = RANK_TO_VAL x"
      unfolding set_ranks_of by blast
    then have "0 \<le> h - 4"
      using RANK_TO_VAL_range [of x] by simp
    then have "straightHigh (ranks_of cs) \<noteq> - 1"
      unfolding sh by simp
    moreover have "card (set (ranks_of cs)) = 5"
      unfolding s by simp
    ultimately show "rank5 cs = Inr [if (\<forall>c\<in>set cs. snd c = snd (hd cs)) then 8 else 4, h]"
      using rank5_straight [OF assms] unfolding sh fl by simp
  }
  {
    assume wheel: "RANK_TO_VAL ` fst ` set cs = {0, 1, 2, 3, 12}"
    then have s: "set (ranks_of cs) = {0, 1, 2, 3, 12}"
      by (simp add: set_ranks_of)
    have sh: "straightHigh (ranks_of cs) = 3"
      using s by (rule straightHigh_wheel)
    have "card (set (ranks_of cs)) = 5"
      unfolding s by simp
    then show "rank5 cs = Inr [if (\<forall>c\<in>set cs. snd c = snd (hd cs)) then 8 else 4, 3]"
      using rank5_straight [OF assms] unfolding sh fl by simp
  }
  {
    assume "(\<forall>k. RANK_TO_VAL ` fst ` set cs \<noteq> {k - 4 .. k})
              \<and> RANK_TO_VAL ` fst ` set cs \<noteq> {0, 1, 2, 3, 12}"
    then have "\<forall>k. set (ranks_of cs) \<noteq> {k - 4 .. k}" "set (ranks_of cs) \<noteq> {0, 1, 2, 3, 12}"
      by (simp_all add: set_ranks_of)
    then have "straightHigh (ranks_of cs) = - 1"
      using assms by (intro straightHigh_none) simp_all
    with assms show "\<exists>hr. rank5 cs = Inr hr \<and> hd hr \<noteq> 4 \<and> hd hr \<noteq> 8"
      by (rule rank5_no_straight)
  }
qed

theorem rank5_straight_detection_witness:
  "length royalBoard = 5
   \<and> RANK_TO_VAL ` fst ` set royalBoard = {12 - 4 .. 12}
   \<and> rank5 royalBoard = Inr [8, 12]
   \<and> length fiveCards = 5
   \<and> RANK_TO_VAL ` fst ` set fiveCards = {0, 1, 2, 3, 12}
   \<and> rank5 fiveCards = Inr [4, 3]
   \<and> length twoPairHand = 5
   \<and> (\<forall>k. RANK_TO_VAL ` fst ` set twoPairHand \<noteq> {k - 4 .. k})
   \<and> RANK_TO_VAL ` fst ` set twoPairHand \<noteq> {0, 1, 2, 3, 12}
   \<and> (\<exists>hr. rank5 twoPairHand = Inr hr \<and> hd hr \<noteq> 4 \<and> hd hr \<noteq> 8)"
proof -
  have l1: "length royalBoard = 5" and l2: "length fiveCards = 5" and l3: "length twoPairHand = 5"
    by (simp_all add: royalBoard_def fiveCards_def twoPairHand_def)
  have "{8 .. 12 :: int} = {12, 11, 10, 9, 8}"
    by auto
  then have v1: "RANK_TO_VAL ` fst ` set royalBoard = {12 - 4 .. 12}"
    by (simp add: royalBoard_def RANK_TO_VAL_simps)
  have v2: "RANK_TO_VAL ` fst ` set fiveCards = {0, 1, 2, 3, 12}"
    by (auto simp: fiveCards_def RANK_TO_VAL_simps)
  have v3: "RANK_TO_VAL ` fst ` set twoPairHand = {12, 10, 8}"
    by (auto simp: twoPairHand_def RANK_TO_VAL_simps)
  have c3: "card (RANK_TO_VAL ` fst ` set twoPairHand) = 3"
    unfolding v3 by simp
  have n1: "\<forall>k. RANK_TO_VAL ` fst ` set twoPairHand \<noteq> {k - 4 .. k}"
  proof
    fix k
    show "RANK_TO_VAL ` fst ` set twoPairHand \<noteq> {k - 4 .. k}"
    proof
      assume "RANK_TO_VAL ` fst ` set twoPairHand = {k - 4 .. k}"
      then have "card (RANK_TO_VAL ` fst ` set twoPairHand) = card {k - 4 .. k}"
        by simp
      with c3 show False by simp
    qed
  qed
  have n2: "RANK_TO_VAL ` fst ` set twoPairHand \<noteq> {0, 1, 2, 3, 12}"
  proof
    assume "RANK_TO_VAL ` fst ` set twoPairHand = {0, 1, 2, 3, 12}"
    then have "card (RANK_TO_VAL ` fst ` set twoPairHand) = card {0, 1, 2, 3, 12 :: int}"
      by simp
    with c3 show False by simp
  qed
  have s1: "\<forall>c\<in>set royalBoard. snd c = snd (hd royalBoard)"
    by (simp add: royalBoard_def)
  have s2: "\<not> (\<forall>c\<in>set fiveCards. snd c = snd (hd fiveCards))"
    by (simp add: fiveCards_def)
  from rank5_straight_detection [OF l1, of 12] v1 s1
  have r1: "rank5 royalBoard = Inr [8, 12]"
    by simp
  from rank5_straight_detection [OF l2, of 0] v2 s2
  have r2: "rank5 fiveCards = Inr [4, 3]"
    by simp
  from rank5_straight_detection [OF l3, of 0] n1 n2
  have r3: "\<exists>hr. rank5 twoPairHand = Inr hr \<and> hd hr \<noteq> 4 \<and> hd hr \<noteq> 8"
    by blast
  from l1 v1 r1 l2 v2 r2 l3 n1 n2 r3 show ?thesis
    by (intro conjI)
qed

section \<open>The simulator: seeds and the short deck\<close>

text \<open>
  C10.  A call of \<^verbatim>\<open>simulateEquity\<close> without \<^verbatim>\<open>rngSeed\<close> is the call with the seed 1337:
  the generator starts from that constant, so two unseeded calls on equal players, board,
  dead cards and trial count return the same result.
\<close>

theorem simulateEquity_unseeded_is_1337:
  "simulateEquity players board dead trialsArg None
     = simulateEquity players board dead trialsArg (Some 1337)"
  by (simp add: simulateEquity_def seedState_def)

text \<open>
  C6.  \<^verbatim>\<open>simulateEquity\<close> is deterministic per seed.  The result (wins, ties and trials) is
  a function of the players, the board, the dead cards, the trial count and the residue of
  the seed modulo \<open>2^32\<close> alone; in particular two calls with the same seed agree.
\<close>

theorem simulateEquity_deterministic_per_seed:
  assumes "seed1 mod 2 ^ 32 = seed2 mod 2 ^ 32"
  shows "simulateEquity players board dead trialsArg (Some seed1)
           = simulateEquity players board dead trialsArg (Some seed2)"
  using assms by (simp add: simulateEquity_def seedState_def)

theorem simulateEquity_deterministic_per_seed_witness:
  "(5 :: int) mod 2 ^ 32 = 4294967301 mod 2 ^ 32
   \<and> simulateEquity [heroSeat, unknownSeat] [] [] (Some 3) (Some 5)
       = simulateEquity [heroSeat, unknownSeat] [] [] (Some 3) (Some 4294967301)"
proof -
  have h: "(5 :: int) mod 2 ^ 32 = 4294967301 mod 2 ^ 32"
    by simp
  from simulateEquity_deterministic_per_seed [OF h] h show ?thesis
    by blast
qed

text \<open>
  C5.  The claim: the zero-counter, zero-trial result of a call whose deck is too short
  is distinguishable from a normal result.  It is not when no trial is requested: at a
  table of 23 seats without cards the call with two dead cards is stopped by the guard,
  the call without dead cards passes it, and with \<open>trials = 0\<close> both return the same
  record.
\<close>

theorem simulateEquity_zero_trials_same_as_short_deck:
  "int (length (baseDeck (replicate 23 unknownSeat) [] [(RA, Ss), (RK, Ss)]))
      < 5 - int (length ([] :: card list)) + sum_list (holeNeeded (replicate 23 unknownSeat))
   \<and> \<not> int (length (baseDeck (replicate 23 unknownSeat) [] []))
      < 5 - int (length ([] :: card list)) + sum_list (holeNeeded (replicate 23 unknownSeat))
   \<and> simulateEquity (replicate 23 unknownSeat) [] [(RA, Ss), (RK, Ss)] (Some 0) None
       = Inr \<lparr> wins = replicate 23 0, ties = replicate 23 0, trials = 0 \<rparr>
   \<and> simulateEquity (replicate 23 unknownSeat) [] [] (Some 0) None
       = Inr \<lparr> wins = replicate 23 0, ties = replicate 23 0, trials = 0 \<rparr>"
proof -
  have short: "int (length (baseDeck (replicate 23 unknownSeat) [] [(RA, Ss), (RK, Ss)]))
      < 5 - int (length ([] :: card list)) + sum_list (holeNeeded (replicate 23 unknownSeat))"
    by code_simp
  have enough: "\<not> int (length (baseDeck (replicate 23 unknownSeat) [] []))
      < 5 - int (length ([] :: card list)) + sum_list (holeNeeded (replicate 23 unknownSeat))"
    by code_simp
  have a: "simulateEquity (replicate 23 unknownSeat) [] [(RA, Ss), (RK, Ss)] (Some 0) None
       = Inr \<lparr> wins = replicate 23 0, ties = replicate 23 0, trials = 0 \<rparr>"
    using short by (simp add: simulateEquity_def deckShort_iff Let_def)
  have b: "simulateEquity (replicate 23 unknownSeat) [] [] (Some 0) None
       = Inr \<lparr> wins = replicate 23 0, ties = replicate 23 0, trials = 0 \<rparr>"
    using enough by (simp add: simulateEquity_def deckShort_iff Let_def trialsOrDefault_def)
  from short enough a b show ?thesis
    by (intro conjI)
qed

text \<open>
  C5, as the code has it.  When the deck that remains after removing the board, the dead
  cards and the known hole cards has fewer cards than \<open>5 - boardLen\<close> plus the missing
  hole cards of all players, \<^verbatim>\<open>simulateEquity\<close> does not throw: it returns zero counters for
  every player and \<open>trials = 0\<close>.  A call that passes the guard and returns reports the
  requested number of trials, so the result of a short deck differs from the result of
  every such call that requests at least one trial.
\<close>

theorem simulateEquity_insufficient_deck:
  "(int (length (baseDeck players board dead))
      < 5 - int (length board) + sum_list (holeNeeded players)
    \<longrightarrow> simulateEquity players board dead trialsArg rngSeed
          = Inr \<lparr> wins = replicate (length players) 0,
                  ties = replicate (length players) 0, trials = 0 \<rparr>)
   \<and> (\<not> int (length (baseDeck players' board' dead'))
          < 5 - int (length board') + sum_list (holeNeeded players')
        \<and> simulateEquity players' board' dead' trialsArg' rngSeed' = Inr res'
      \<longrightarrow> trials res' = trialsOrDefault trialsArg')
   \<and> (int (length (baseDeck players board dead))
          < 5 - int (length board) + sum_list (holeNeeded players)
        \<and> \<not> int (length (baseDeck players' board' dead'))
          < 5 - int (length board') + sum_list (holeNeeded players')
        \<and> 1 \<le> trialsOrDefault trialsArg'
        \<and> simulateEquity players' board' dead' trialsArg' rngSeed' = Inr res'
      \<longrightarrow> simulateEquity players board dead trialsArg rngSeed \<noteq> Inr res')"
proof (intro conjI impI)
  assume "int (length (baseDeck players board dead))
      < 5 - int (length board) + sum_list (holeNeeded players)"
  then show "simulateEquity players board dead trialsArg rngSeed
          = Inr \<lparr> wins = replicate (length players) 0,
                  ties = replicate (length players) 0, trials = 0 \<rparr>"
    by (simp add: simulateEquity_def deckShort_iff Let_def)
next
  assume "\<not> int (length (baseDeck players' board' dead'))
          < 5 - int (length board') + sum_list (holeNeeded players')
        \<and> simulateEquity players' board' dead' trialsArg' rngSeed' = Inr res'"
  then show "trials res' = trialsOrDefault trialsArg'"
    by (auto simp add: simulateEquity_def deckShort_iff Let_def split: sum.splits)
next
  assume a: "int (length (baseDeck players board dead))
          < 5 - int (length board) + sum_list (holeNeeded players)
        \<and> \<not> int (length (baseDeck players' board' dead'))
          < 5 - int (length board') + sum_list (holeNeeded players')
        \<and> 1 \<le> trialsOrDefault trialsArg'
        \<and> simulateEquity players' board' dead' trialsArg' rngSeed' = Inr res'"
  then have "trials res' = trialsOrDefault trialsArg'"
    by (auto simp add: simulateEquity_def deckShort_iff Let_def split: sum.splits)
  with a have pos: "trials res' \<noteq> 0"
    by simp
  from a have "simulateEquity players board dead trialsArg rngSeed
          = Inr \<lparr> wins = replicate (length players) 0,
                  ties = replicate (length players) 0, trials = 0 \<rparr>"
    by (simp add: simulateEquity_def deckShort_iff Let_def)
  with pos show "simulateEquity players board dead trialsArg rngSeed \<noteq> Inr res'"
    by auto
qed

theorem simulateEquity_insufficient_deck_witness:
  "int (length (baseDeck (replicate 24 unknownSeat) [] []))
      < 5 - int (length ([] :: card list)) + sum_list (holeNeeded (replicate 24 unknownSeat))
   \<and> simulateEquity (replicate 24 unknownSeat) [] [] (Some 100) None
       = Inr \<lparr> wins = replicate 24 0, ties = replicate 24 0, trials = 0 \<rparr>
   \<and> \<not> int (length (baseDeck [heroSeat, unknownSeat] [] []))
      < 5 - int (length ([] :: card list)) + sum_list (holeNeeded [heroSeat, unknownSeat])
   \<and> 1 \<le> trialsOrDefault (Some 1)
   \<and> simulateEquity [heroSeat, unknownSeat] [] [] (Some 1) None
       = Inr \<lparr> wins = [0, 1], ties = [0, 0], trials = 1 \<rparr>
   \<and> trials \<lparr> wins = [0, 1], ties = [0, 0], trials = 1 \<rparr> = trialsOrDefault (Some 1)
   \<and> simulateEquity (replicate 24 unknownSeat) [] [] (Some 100) None
       \<noteq> Inr \<lparr> wins = [0, 1], ties = [0, 0], trials = 1 \<rparr>"
proof -
  have short: "int (length (baseDeck (replicate 24 unknownSeat) [] []))
      < 5 - int (length ([] :: card list)) + sum_list (holeNeeded (replicate 24 unknownSeat))"
    by code_simp
  have enough: "\<not> int (length (baseDeck [heroSeat, unknownSeat] [] []))
      < 5 - int (length ([] :: card list)) + sum_list (holeNeeded [heroSeat, unknownSeat])"
    by code_simp
  have one: "1 \<le> trialsOrDefault (Some 1)"
    by (simp add: trialsOrDefault_def)
  have run: "simulateEquity [heroSeat, unknownSeat] [] [] (Some 1) None
       = Inr \<lparr> wins = [0, 1], ties = [0, 0], trials = 1 \<rparr>"
    by code_simp
  note inst = simulateEquity_insufficient_deck
    [of "replicate 24 unknownSeat" "[]" "[]" "Some 100" None
        "[heroSeat, unknownSeat]" "[]" "[]" "Some 1" None
        "\<lparr> wins = [0, 1], ties = [0, 0], trials = 1 \<rparr>"]
  from inst short have a: "simulateEquity (replicate 24 unknownSeat) [] [] (Some 100) None
       = Inr \<lparr> wins = replicate 24 0, ties = replicate 24 0, trials = 0 \<rparr>"
    by simp
  from inst enough run
  have b: "trials \<lparr> wins = [0, 1], ties = [0, 0], trials = 1 \<rparr> = trialsOrDefault (Some 1)"
    by blast
  from inst short enough one run
  have c: "simulateEquity (replicate 24 unknownSeat) [] [] (Some 100) None
       \<noteq> Inr \<lparr> wins = [0, 1], ties = [0, 0], trials = 1 \<rparr>"
    by blast
  from short a enough one run b c show ?thesis
    by (intro conjI)
qed

text \<open>
  C1.  The claim: a player whose \<^verbatim>\<open>active\<close> flag is false is dealt no cards, is left out
  of the comparison and keeps zero counters.  \<^verbatim>\<open>simulateEquity\<close> never reads the flag.
  On a royal-flush board every seat plays the board, so the single trial below is a tie
  whatever is dealt: the folded seat is dealt two cards, is ranked, and receives a tie
  increment.
\<close>

theorem simulateEquity_counts_folded_seat:
  "simulateEquity [heroSeat, foldedSeat] royalBoard [] (Some 1) None
     = Inr \<lparr> wins = [0, 0], ties = [1, 1], trials = 1 \<rparr>"
  by code_simp

section \<open>The simulator: counting\<close>

text \<open>
  C7.  The claim: in every completed trial either a single winner gets a win increment or
  every member of a tied winning set of at least two gets a tie increment, so that
  \<open>sum(wins)\<close> plus the number of tied trials equals \<open>trials\<close>.  With an empty player list
  the trial completes with an empty \<^verbatim>\<open>winners\<close> array: nothing is incremented and the sum
  stays 0 while \<open>trials\<close> is 1.
\<close>

theorem simulateEquity_no_players_no_winner:
  "simulateEquity [] [] [] (Some 1) None = Inr \<lparr> wins = [], ties = [], trials = 1 \<rparr>
   \<and> simulationLog [] [] [] (Some 1) None = Inr [ [] ]
   \<and> sum_list (wins \<lparr> wins = [], ties = [], trials = 1 \<rparr>)
        + int (length (filter (\<lambda>w. 2 \<le> length w) [ [] :: nat list ]))
      \<noteq> int (trials \<lparr> wins = [], ties = [], trials = 1 \<rparr>)"
proof -
  have a: "simulateEquity [] [] [] (Some 1) None = Inr \<lparr> wins = [], ties = [], trials = 1 \<rparr>"
    by code_simp
  have b: "simulationLog [] [] [] (Some 1) None = Inr [ [] ]"
    by code_simp
  from a b show ?thesis by simp
qed

text \<open>
  C7, for at least one player.  Let \<open>hist\<close> be the \<^verbatim>\<open>winners\<close> arrays of the completed
  trials, in order.  Every one of them is a non-empty set of player indices.  The win
  counter of player \<open>i\<close> counts the trials won by \<open>i\<close> alone, and the tie counter of \<open>i\<close>
  counts the trials whose winning set has at least two members and contains \<open>i\<close>; no trial
  adds to both.  Hence \<open>sum(wins) \<le> trials\<close>, and \<open>sum(wins)\<close> plus the number of tied
  trials is \<open>trials\<close>.
\<close>

theorem simulateEquity_counting:
  assumes "players \<noteq> []"
    and "simulateEquity players board dead trialsArg rngSeed = Inr res"
  shows "\<exists>hist. simulationLog players board dead trialsArg rngSeed = Inr hist
     \<and> length hist = trials res
     \<and> (\<forall>w\<in>set hist. w \<noteq> [] \<and> distinct w \<and> (\<forall>i\<in>set w. i < length players))
     \<and> length (wins res) = length players \<and> length (ties res) = length players
     \<and> (\<forall>i<length players.
           wins res ! i = int (length (filter (\<lambda>w. w = [i]) hist))
         \<and> ties res ! i = int (length (filter (\<lambda>w. 2 \<le> length w \<and> i \<in> set w) hist)))
     \<and> sum_list (wins res) \<le> int (trials res)
     \<and> sum_list (wins res) + int (length (filter (\<lambda>w. 2 \<le> length w) hist)) = int (trials res)"
  using assms(2)
proof (cases rule: simulateEquity_cases)
  case short
  then have "simulationLog players board dead trialsArg rngSeed = Inr []"
    by (simp add: simulationLog_def)
  with short(2) show ?thesis
    by simp
next
  case (run w t st')
  define n where "n = length players"
  define k where "k = trialsOrDefault trialsArg"
  from trialsLoop_log [OF run(2)] obtain hist where
    h: "trialLog players board (baseDeck players board dead) (trialsOrDefault trialsArg)
          (seedState rngSeed) = Inr hist"
    and acc: "(w, t) = foldl (\<lambda>a w. tally w a) (replicate (length players) 0, replicate (length players) 0) hist"
    by blast
  have sl: "simulationLog players board dead trialsArg rngSeed = Inr hist"
    using run(1) h by (simp add: simulationLog_def)
  from trialLog_props [OF h assms(1)] have
    len: "length hist = k"
    and ws: "\<forall>w\<in>set hist. w \<noteq> [] \<and> distinct w \<and> (\<forall>i\<in>set w. i < n)"
    unfolding n_def k_def by simp_all
  have wt: "w = fst (foldl (\<lambda>a w. tally w a) (replicate n 0, replicate n 0) hist)"
           "t = snd (foldl (\<lambda>a w. tally w a) (replicate n 0, replicate n 0) hist)"
    unfolding n_def acc [symmetric] by simp_all
  from tally_hist [OF ws, of "replicate n 0" "replicate n 0"] have
    c: "length w = n" "length t = n"
       "\<forall>i<n. w ! i = int (length (filter (\<lambda>w. w = [i]) hist))"
       "\<forall>i<n. t ! i = int (length (filter (\<lambda>w. 2 \<le> length w \<and> i \<in> set w) hist))"
       "sum_list w = int (length (filter (\<lambda>w. length w = 1) hist))"
    unfolding wt [symmetric] by simp_all
  from ws have "\<forall>w\<in>set hist. w \<noteq> []" by blast
  from split_by_winner_count [OF this] len have
    total: "int (length (filter (\<lambda>w. length w = 1) hist))
              + int (length (filter (\<lambda>w. 2 \<le> length w) hist)) = int k"
    by (metis of_nat_add)
  have res: "wins res = w" "ties res = t" "trials res = k"
    unfolding run(3) k_def by simp_all
  show ?thesis
    unfolding res
    using sl len ws c total unfolding n_def
    by (intro exI [of _ hist]) simp
qed

theorem simulateEquity_counting_witness:
  "[heroSeat, foldedSeat] \<noteq> []
   \<and> simulateEquity [heroSeat, foldedSeat] royalBoard [] (Some 1) None
       = Inr \<lparr> wins = [0, 0], ties = [1, 1], trials = 1 \<rparr>
   \<and> (\<exists>hist. simulationLog [heroSeat, foldedSeat] royalBoard [] (Some 1) None = Inr hist
         \<and> length hist = 1
         \<and> sum_list [0, 0] + int (length (filter (\<lambda>w. 2 \<le> length w) hist)) = 1)"
proof -
  have ne: "[heroSeat, foldedSeat] \<noteq> []"
    by simp
  have run: "simulateEquity [heroSeat, foldedSeat] royalBoard [] (Some 1) None
       = Inr \<lparr> wins = [0, 0], ties = [1, 1], trials = 1 \<rparr>"
    by code_simp
  from simulateEquity_counting [OF ne run]
  have "\<exists>hist. simulationLog [heroSeat, foldedSeat] royalBoard [] (Some 1) None = Inr hist
         \<and> length hist = 1
         \<and> sum_list [0, 0] + int (length (filter (\<lambda>w. 2 \<le> length w) hist)) = 1"
    by auto
  with ne run show ?thesis
    by (intro conjI)
qed

section \<open>The equity curve: the sweep\<close>

text \<open>
  The double arithmetic at the first point of the sweep for the hero 2h 3h: one opponent,
  wins 876 and ties 127 for the hero, two players with ties.  The exact value of the
  expression is 37.58; the value computed is the double next above the double nearest to
  37.58, which prints as 37.580000000000005.
\<close>

lemma equityOf_example:
  "equityOf \<lparr> wins = [876, 1497], ties = [127, 127], trials = 2500 \<rparr>
     = 5288914812393227 / 2 ^ 47"
proof -
  have "js_mul (js_div (js_add 876 (js_div 127 2)) 2500) 100 = 5288914812393227 / 2 ^ 47"
    by code_simp
  then show ?thesis
    by (simp add: equityOf_def tieBuckets_def)
qed

text \<open>
  C9.  The equity-curve sweep.  When the hero (the first seat marked \<^verbatim>\<open>isHero\<close>, else the
  first seat) has exactly two known cards, the sweep runs, for each opponent count from 1
  to 8, one call of \<^verbatim>\<open>simulateEquity\<close> on the hero's two cards and that many seats without
  cards, with an empty board, no dead cards and 2500 trials.  Each call returns with
  \<open>trials = 2500\<close>, and the sweep reports, for each opponent count,
  \<open>(wins[0] + ties[0] / tieBuckets) / trials \<times> 100\<close>, where \<open>tieBuckets\<close> is the number
  of players with a positive tie counter, and at least 1.  The expression is evaluated as
  the source evaluates it, in doubles: \<open>js_div\<close>, \<open>js_add\<close> and \<open>js_mul\<close> round each
  result.  The value reported differs from the exact value of the expression by at most
  \<open>2^-50\<close> of that value.
\<close>

theorem equityCurve_sweep:
  assumes "findHero players = Some hero" and "filterBoolean (cards hero) = [c1, c2]"
  shows "\<exists>sims. length sims = 8
     \<and> (\<forall>k<8. simulateEquity
                 (\<lparr> active = True, isHero = True, cards = [Some c1, Some c2] \<rparr>
                    # replicate (k + 1) \<lparr> active = True, isHero = False, cards = [None, None] \<rparr>)
                 [] [] (Some 2500) None = Inr (sims ! k)
              \<and> trials (sims ! k) = 2500)
     \<and> equityCurve players
         = Inr (map (\<lambda>k. (k + 1,
                   js_mul (js_div (js_add (of_int (wins (sims ! k) ! 0))
                       (js_div (of_int (ties (sims ! k) ! 0))
                          (of_int (max 1 (int (length (filter (\<lambda>b. b > 0) (ties (sims ! k)))))))))
                    2500) 100))
                 [0 ..< 8])
     \<and> (\<forall>k<8. \<bar>js_mul (js_div (js_add (of_int (wins (sims ! k) ! 0))
                       (js_div (of_int (ties (sims ! k) ! 0))
                          (of_int (max 1 (int (length (filter (\<lambda>b. b > 0) (ties (sims ! k)))))))))
                    2500) 100
              - (of_int (wins (sims ! k) ! 0)
                 + of_int (ties (sims ! k) ! 0)
                     / of_int (max 1 (int (length (filter (\<lambda>b. b > 0) (ties (sims ! k)))))))
                / 2500 * 100\<bar>
            \<le> (of_int (wins (sims ! k) ! 0)
                 + of_int (ties (sims ! k) ! 0)
                     / of_int (max 1 (int (length (filter (\<lambda>b. b > 0) (ties (sims ! k)))))))
                / 2500 * 100 / 2 ^ 50)"
proof -
  define hc where "hc = [c1, c2]"
  define sim_of where
    "sim_of opp = projr (simulateEquity (simPlayers hc opp) [] [] (Some 2500) None)" for opp
  define F :: "simresult \<Rightarrow> rat" where
    "F sim = js_mul (js_div (js_add (of_int (wins sim ! 0))
                       (js_div (of_int (ties sim ! 0))
                          (of_int (max 1 (int (length (filter (\<lambda>b. b > 0) (ties sim))))))))
                    2500) 100" for sim
  define X :: "simresult \<Rightarrow> rat" where
    "X sim = (of_int (wins sim ! 0)
                 + of_int (ties sim ! 0)
                     / of_int (max 1 (int (length (filter (\<lambda>b. b > 0) (ties sim))))))
                / 2500 * 100" for sim
  define sims where "sims = map (\<lambda>k. sim_of (k + 1)) [0 ..< 8]"
  have two: "length hc = 2"
    by (simp add: hc_def)
  have point: "simulateEquity (simPlayers hc opp) [] [] (Some 2500) None = Inr (sim_of opp)
                 \<and> trials (sim_of opp) = 2500
                 \<and> curvePoint hc opp = Inr (opp, F (sim_of opp))" if "opp \<le> 8" for opp
  proof -
    from curvePoint_returns [OF two that] obtain sim where
      s: "simulateEquity (simPlayers hc opp) [] [] (Some 2500) None = Inr sim"
         "trials sim = 2500" "curvePoint hc opp = Inr (opp, F sim)"
      unfolding F_def by blast
    from s(1) have "sim_of opp = sim"
      by (simp add: sim_of_def)
    with s show ?thesis by simp
  qed
  have len: "length sims = 8"
    by (simp add: sims_def)
  have nth: "sims ! k = sim_of (k + 1)" if "k < 8" for k
    using that unfolding sims_def by (simp del: upt_Suc)
  have players_eq: "\<lparr> active = True, isHero = True, cards = [Some c1, Some c2] \<rparr>
                    # replicate (k + 1) \<lparr> active = True, isHero = False, cards = [None, None] \<rparr>
                    = simPlayers hc (k + 1)" for k
    by (simp add: simPlayers_def hc_def)
  have runs: "\<forall>k<8. simulateEquity
                 (\<lparr> active = True, isHero = True, cards = [Some c1, Some c2] \<rparr>
                    # replicate (k + 1) \<lparr> active = True, isHero = False, cards = [None, None] \<rparr>)
                 [] [] (Some 2500) None = Inr (sims ! k)
              \<and> trials (sims ! k) = 2500"
  proof (intro allI impI)
    fix k :: nat assume k: "k < 8"
    then have "k + 1 \<le> 8" by simp
    from point [OF this] show "simulateEquity
                 (\<lparr> active = True, isHero = True, cards = [Some c1, Some c2] \<rparr>
                    # replicate (k + 1) \<lparr> active = True, isHero = False, cards = [None, None] \<rparr>)
                 [] [] (Some 2500) None = Inr (sims ! k)
              \<and> trials (sims ! k) = 2500"
      unfolding players_eq nth [OF k] by simp
  qed
  have "equityCurve players = map_throw (curvePoint hc) [1 ..< 9]"
    using assms by (simp add: equityCurve_def hc_def Let_def)
  also have "\<dots> = Inr (map (\<lambda>opp. (opp, F (sim_of opp))) [1 ..< 9])"
  proof (rule map_throw_Inr_map, rule ballI)
    fix opp assume "opp \<in> set [1 ..< 9]"
    then have "opp \<le> 8" by simp
    from point [OF this] show "curvePoint hc opp = Inr (opp, F (sim_of opp))"
      by simp
  qed
  also have "map (\<lambda>opp. (opp, F (sim_of opp))) [1 ..< 9]
               = map (\<lambda>k. (k + 1, F (sim_of (k + 1)))) [0 ..< 8]"
    unfolding upt_1_9 by (simp add: comp_def del: upt_Suc)
  also have "\<dots> = map (\<lambda>k. (k + 1, F (sims ! k))) [0 ..< 8]"
    by (rule map_cong) (simp_all add: nth del: upt_Suc)
  finally have curve: "equityCurve players = Inr (map (\<lambda>k. (k + 1, F (sims ! k))) [0 ..< 8])" .
  have near: "\<forall>k<8. \<bar>F (sims ! k) - X (sims ! k)\<bar> \<le> X (sims ! k) / 2 ^ 50"
  proof (intro allI impI)
    fix k :: nat assume k: "k < 8"
    then have "k + 1 \<le> 8" by simp
    from point [OF this] have
      s: "simulateEquity (simPlayers hc (k + 1)) [] [] (Some 2500) None = Inr (sim_of (k + 1))"
         "trials (sim_of (k + 1)) = 2500"
      by simp_all
    have ne: "simPlayers hc (k + 1) \<noteq> []"
      by (simp add: simPlayers_def)
    from s(2) have t0: "trials (sim_of (k + 1)) \<noteq> 0"
      by simp
    have e: "equityOf (sim_of (k + 1)) = F (sim_of (k + 1))"
      using s(2) by (simp add: equityOf_def F_def tieBuckets_eq)
    have x: "exactEquity (sim_of (k + 1)) = X (sim_of (k + 1))"
      using s(2) by (simp add: exactEquity_def X_def tieBuckets_eq)
    from simulateEquity_equity_accuracy [OF ne s(1) t0]
    show "\<bar>F (sims ! k) - X (sims ! k)\<bar> \<le> X (sims ! k) / 2 ^ 50"
      unfolding nth [OF k] e x .
  qed
  show ?thesis
    using len runs curve near unfolding F_def X_def by (intro exI [of _ sims] conjI)
qed

theorem equityCurve_sweep_witness:
  "findHero [heroSeat, unknownSeat] = Some heroSeat
   \<and> filterBoolean (cards heroSeat) = [(R2, Sh), (R3, Sh)]
   \<and> (\<exists>sims. length sims = 8
         \<and> simulateEquity
             (\<lparr> active = True, isHero = True, cards = [Some (R2, Sh), Some (R3, Sh)] \<rparr>
                # replicate 8 \<lparr> active = True, isHero = False, cards = [None, None] \<rparr>)
             [] [] (Some 2500) None = Inr (sims ! 7)
         \<and> trials (sims ! 7) = 2500
         \<and> equityCurve [heroSeat, unknownSeat]
             = Inr (map (\<lambda>k. (k + 1,
                       js_mul (js_div (js_add (of_int (wins (sims ! k) ! 0))
                       (js_div (of_int (ties (sims ! k) ! 0))
                          (of_int (max 1 (int (length (filter (\<lambda>b. b > 0) (ties (sims ! k)))))))))
                    2500) 100))
                     [0 ..< 8]))"
proof -
  have h: "findHero [heroSeat, unknownSeat] = Some heroSeat"
    by (simp add: findHero_def heroSeat_def)
  have c: "filterBoolean (cards heroSeat) = [(R2, Sh), (R3, Sh)]"
    by (simp add: heroSeat_def filterBoolean_def)
  from equityCurve_sweep [OF h c] obtain sims where
    s: "length sims = 8"
       "\<forall>k<8. simulateEquity
                 (\<lparr> active = True, isHero = True, cards = [Some (R2, Sh), Some (R3, Sh)] \<rparr>
                    # replicate (k + 1) \<lparr> active = True, isHero = False, cards = [None, None] \<rparr>)
                 [] [] (Some 2500) None = Inr (sims ! k)
              \<and> trials (sims ! k) = 2500"
       "equityCurve [heroSeat, unknownSeat]
         = Inr (map (\<lambda>k. (k + 1,
                   js_mul (js_div (js_add (of_int (wins (sims ! k) ! 0))
                       (js_div (of_int (ties (sims ! k) ! 0))
                          (of_int (max 1 (int (length (filter (\<lambda>b. b > 0) (ties (sims ! k)))))))))
                    2500) 100))
                 [0 ..< 8])"
    by blast
  from s(2) have "simulateEquity
             (\<lparr> active = True, isHero = True, cards = [Some (R2, Sh), Some (R3, Sh)] \<rparr>
                # replicate (7 + 1) \<lparr> active = True, isHero = False, cards = [None, None] \<rparr>)
             [] [] (Some 2500) None = Inr (sims ! 7)
         \<and> trials (sims ! 7) = 2500"
    by (rule allE [of _ 7]) simp
  then have seven: "simulateEquity
             (\<lparr> active = True, isHero = True, cards = [Some (R2, Sh), Some (R3, Sh)] \<rparr>
                # replicate 8 \<lparr> active = True, isHero = False, cards = [None, None] \<rparr>)
             [] [] (Some 2500) None = Inr (sims ! 7)
         \<and> trials (sims ! 7) = 2500"
    by (simp only: numeral_plus_one semiring_norm)
  from h c s(1) seven s(3) show ?thesis
    by blast
qed

end
